theory Spec2Isabelle
  imports Main "HOL-Library.Word" "HOL-Library.Sublist"
begin

unbundle bit_operations_syntax

section \<open>Constants of the shared-memory table\<close>

text \<open>Return codes of \<^verbatim>\<open>shared_constants.h\<close> (the macros \<^verbatim>\<open>OK\<close>, \<^verbatim>\<open>NOT_FOUND\<close>,
  \<^verbatim>\<open>NO_SPACE_ERR\<close>, \<^verbatim>\<open>DUPLICATE_KEY\<close>) and the sizes of \<^verbatim>\<open>rwlock_optimized_status.h\<close>.\<close>

definition OK :: int where "OK = 0"
definition NOT_FOUND :: int where "NOT_FOUND = - 1"
definition NO_SPACE_ERR :: int where "NO_SPACE_ERR = - 2"
definition DUPLICATE_KEY :: int where "DUPLICATE_KEY = - 3"

definition MAX_VALUE_LEN :: nat where "MAX_VALUE_LEN = 256"
definition RWLOCK_HASH_TABLE_SIZE :: nat where "RWLOCK_HASH_TABLE_SIZE = 2048"

text \<open>\<^verbatim>\<open>static_cast<int>(RWLOCK_HASH_TABLE_SIZE * RWLOCK_MAX_LOAD_FACTOR)\<close> with the load
  factor 0.75: the product 1536.0 is exact in binary floating point.\<close>

definition RWLOCK_MAX_ENTRIES :: int where "RWLOCK_MAX_ENTRIES = 1536"

text \<open>\<^verbatim>\<open>ENOENT\<close> of \<^verbatim>\<open><cerrno>\<close> (its value on Linux and macOS).\<close>

definition ENOENT :: int where "ENOENT = 2"

section \<open>Data model\<close>

datatype RWLockEntryState = RWLOCK_EMPTY | RWLOCK_OCCUPIED | RWLOCK_DELETED

text \<open>\<^verbatim>\<open>struct RWLockHashEntry\<close>. The key is a C \<^verbatim>\<open>int\<close>, held as its 32-bit
  two's-complement pattern, so that \<^verbatim>\<open>static_cast<uint32_t>(key)\<close> is the identity and
  \<open>sint\<close> reads the signed value; \<open>entry_value\<close> is the byte buffer
  \<^verbatim>\<open>char value[MAX_VALUE_LEN]\<close>.\<close>

record RWLockHashEntry =
  entry_key :: "32 word"
  entry_value :: string
  entry_state :: RWLockEntryState
  entry_hash_value :: "32 word"

text \<open>\<^verbatim>\<open>struct RWLockOptimizedSharedData\<close> without the lock objects and the
  \<^verbatim>\<open>initialized\<close> flag: every operation below is the body that runs while the table lock is
  held. The two counters are C \<^verbatim>\<open>int\<close>s; they are modelled as unbounded integers.\<close>

record RWLockOptimizedSharedData =
  current_count :: int
  deleted_count :: int
  hash_seed :: "32 word"
  hash_table :: "RWLockHashEntry list"

section \<open>C strings\<close>

definition NUL :: char where "NUL = CHR 0x00"

text \<open>The bytes of a NUL-terminated buffer up to the terminator: what
  \<^verbatim>\<open>std::string(const char *)\<close> reads, and what \<^verbatim>\<open>strncpy\<close> sees of \<^verbatim>\<open>c_str()\<close>.\<close>

definition c_str :: "string \<Rightarrow> string" where
  "c_str buf = takeWhile (\<lambda>c. c \<noteq> NUL) buf"

text \<open>The \<open>n\<close> bytes that \<^verbatim>\<open>strncpy(dst, src.c_str(), n)\<close> writes: the source up to its first
  NUL, at most \<open>n\<close> bytes of it, padded with NUL bytes.\<close>

definition strncpy :: "string \<Rightarrow> nat \<Rightarrow> string" where
  "strncpy src n = (let s = take n (c_str src) in s @ replicate (n - length s) NUL)"

text \<open>\<^verbatim>\<open>strncpy(entry.value, v.c_str(), MAX_VALUE_LEN - 1); entry.value[MAX_VALUE_LEN - 1] = '\0'\<close>\<close>

definition write_value :: "string \<Rightarrow> string \<Rightarrow> string" where
  "write_value buf v =
     (strncpy v (MAX_VALUE_LEN - 1) @ drop (MAX_VALUE_LEN - 1) buf)[MAX_VALUE_LEN - 1 := NUL]"

section \<open>Hash primitives\<close>

definition hash :: "32 word \<Rightarrow> 32 word \<Rightarrow> 32 word" where
  "hash seed k =
     (let k0 = k XOR seed;
          k1 = k0 XOR drop_bit 16 k0;
          k2 = k1 * 0x85ebca6b;
          k3 = k2 XOR drop_bit 13 k2;
          k4 = k3 * 0xc2b2ae35;
          k5 = k4 XOR drop_bit 16 k4
      in k5 AND (word_of_nat RWLOCK_HASH_TABLE_SIZE - 1))"

definition hash2 :: "32 word \<Rightarrow> 32 word \<Rightarrow> 32 word" where
  "hash2 seed k =
     (let k0 = k XOR (seed + 0x9e3779b9);
          k1 = k0 XOR drop_bit 16 k0;
          k2 = k1 * 0x21f0aaad;
          k3 = k2 XOR drop_bit 15 k2;
          k4 = k3 * 0x735a2d97;
          k5 = k4 XOR drop_bit 15 k4
      in (k5 AND (word_of_nat RWLOCK_HASH_TABLE_SIZE - 1)) OR 1)"

text \<open>\<^verbatim>\<open>(current_pos + step * hash2_val) & (RWLOCK_HASH_TABLE_SIZE - 1)\<close>: the two \<^verbatim>\<open>int\<close>
  arguments are converted to \<^verbatim>\<open>uint32_t\<close> and the arithmetic is unsigned 32-bit.\<close>

definition getNextProbe :: "nat \<Rightarrow> nat \<Rightarrow> 32 word \<Rightarrow> nat" where
  "getNextProbe current_pos step hash2_val =
     unat ((word_of_nat current_pos + word_of_nat step * hash2_val)
           AND (word_of_nat RWLOCK_HASH_TABLE_SIZE - 1))"

text \<open>The position held by \<^verbatim>\<open>pos\<close> at the start of iteration \<open>s\<close> of the probing loops:
  \<^verbatim>\<open>pos = hash_val\<close>, then \<^verbatim>\<open>pos = getNextProbe(pos, step + 1, hash2_val)\<close> at the end of
  iteration \<^verbatim>\<open>step\<close>.\<close>

primrec probe_seq :: "nat \<Rightarrow> 32 word \<Rightarrow> nat \<Rightarrow> nat" where
  "probe_seq hash_val hash2_val 0 = hash_val"
| "probe_seq hash_val hash2_val (Suc s) =
     getNextProbe (probe_seq hash_val hash2_val s) (Suc s) hash2_val"

text \<open>Triangular numbers: the multiple of the step that the loops have added to the start
  position after \<open>n\<close> iterations, since iteration \<open>step\<close> adds \<open>(step + 1) * hash2_val\<close> to the
  current position.\<close>

primrec tri :: "nat \<Rightarrow> nat" where
  "tri 0 = 0" | "tri (Suc n) = tri n + Suc n"

section \<open>The probing loops\<close>

function findEntry_loop ::
  "RWLockHashEntry list \<Rightarrow> 32 word \<Rightarrow> 32 word \<Rightarrow> nat \<Rightarrow> nat \<Rightarrow> nat option" where
  "findEntry_loop tbl k hash2_val pos step =
     (if step < RWLOCK_HASH_TABLE_SIZE then
        (let entry = tbl ! pos in
         if entry_state entry = RWLOCK_EMPTY then None
         else if entry_state entry = RWLOCK_OCCUPIED \<and> entry_key entry = k then Some pos
         else findEntry_loop tbl k hash2_val (getNextProbe pos (step + 1) hash2_val) (step + 1))
      else None)"
  by pat_completeness auto
termination
  by (relation "measure (\<lambda>(tbl, k, h2, pos, step). RWLOCK_HASH_TABLE_SIZE - step)") auto

text \<open>\<^verbatim>\<open>findEntry\<close>: \<open>None\<close> is the return value \<^verbatim>\<open>-1\<close>.\<close>

definition findEntry :: "RWLockOptimizedSharedData \<Rightarrow> 32 word \<Rightarrow> 32 word \<Rightarrow> nat option" where
  "findEntry s k hash_val =
     findEntry_loop (hash_table s) k (hash2 (hash_seed s) k) (unat hash_val) 0"

function findEmptySlot_loop ::
  "RWLockHashEntry list \<Rightarrow> 32 word \<Rightarrow> 32 word \<Rightarrow> nat \<Rightarrow> nat option \<Rightarrow> nat \<Rightarrow> nat option" where
  "findEmptySlot_loop tbl k hash2_val pos first_deleted step =
     (if step < RWLOCK_HASH_TABLE_SIZE then
        (let entry = tbl ! pos in
         if entry_state entry = RWLOCK_EMPTY then
           (if first_deleted \<noteq> None then first_deleted else Some pos)
         else
           (let first_deleted' =
                  (if entry_state entry = RWLOCK_DELETED \<and> first_deleted = None then Some pos
                   else first_deleted)
            in if entry_state entry = RWLOCK_OCCUPIED \<and> entry_key entry = k then None
               else findEmptySlot_loop tbl k hash2_val (getNextProbe pos (step + 1) hash2_val)
                      first_deleted' (step + 1)))
      else first_deleted)"
  by pat_completeness auto
termination
  by (relation "measure (\<lambda>(tbl, k, h2, pos, fd, step). RWLOCK_HASH_TABLE_SIZE - step)") auto

definition findEmptySlot :: "RWLockOptimizedSharedData \<Rightarrow> 32 word \<Rightarrow> 32 word \<Rightarrow> nat option" where
  "findEmptySlot s k hash_val =
     findEmptySlot_loop (hash_table s) k (hash2 (hash_seed s) k) (unat hash_val) None 0"

section \<open>Rehash in place\<close>

definition needRehash :: "RWLockOptimizedSharedData \<Rightarrow> bool" where
  "needRehash s \<longleftrightarrow> current_count s + deleted_count s > RWLOCK_MAX_ENTRIES"

text \<open>\<^verbatim>\<open>std::map<int, std::string>\<close> as the list of its pairs in iteration order (ascending
  signed key); \<open>map_assign\<close> is \<^verbatim>\<open>m[k] = v\<close>.\<close>

fun map_assign :: "(32 word \<times> string) list \<Rightarrow> 32 word \<Rightarrow> string \<Rightarrow> (32 word \<times> string) list" where
  "map_assign [] k v = [(k, v)]"
| "map_assign ((k', v') # m) k v =
     (if k = k' then (k, v) # m
      else if sint k < sint k' then (k, v) # (k', v') # m
      else (k', v') # map_assign m k v)"

text \<open>The first loop of \<^verbatim>\<open>rehashIfNeeded\<close>: the snapshot of the occupied slots.\<close>

fun collect_occupied ::
  "RWLockHashEntry list \<Rightarrow> (32 word \<times> string) list \<Rightarrow> (32 word \<times> string) list" where
  "collect_occupied [] temp_data = temp_data"
| "collect_occupied (e # es) temp_data =
     collect_occupied es
       (if entry_state e = RWLOCK_OCCUPIED
        then map_assign temp_data (entry_key e) (c_str (entry_value e)) else temp_data)"

text \<open>The write of a whole entry that \<^verbatim>\<open>rehashIfNeeded\<close>, \<^verbatim>\<open>addRsc\<close> and \<^verbatim>\<open>upsertRsc\<close>
  share: key, value, state, cached hash, and the live counter.\<close>

definition store_entry ::
  "RWLockOptimizedSharedData \<Rightarrow> nat \<Rightarrow> 32 word \<Rightarrow> string \<Rightarrow> 32 word \<Rightarrow> RWLockOptimizedSharedData" where
  "store_entry s pos k v hash_val =
     s\<lparr>hash_table := (hash_table s)[pos :=
          \<lparr>entry_key = k,
           entry_value = write_value (entry_value (hash_table s ! pos)) v,
           entry_state = RWLOCK_OCCUPIED,
           entry_hash_value = hash_val\<rparr>],
       current_count := current_count s + 1\<rparr>"

text \<open>The third loop of \<^verbatim>\<open>rehashIfNeeded\<close>; it returns early with \<^verbatim>\<open>NO_SPACE_ERR\<close>.\<close>

fun reinsert ::
  "RWLockOptimizedSharedData \<Rightarrow> (32 word \<times> string) list \<Rightarrow> int \<times> RWLockOptimizedSharedData" where
  "reinsert s [] = (OK, s)"
| "reinsert s ((k, v) # rest) =
     (let hash_val = hash (hash_seed s) k in
      case findEmptySlot s k hash_val of
        None \<Rightarrow> (NO_SPACE_ERR, s)
      | Some pos \<Rightarrow> reinsert (store_entry s pos k v hash_val) rest)"

definition clear_states :: "RWLockOptimizedSharedData \<Rightarrow> RWLockOptimizedSharedData" where
  "clear_states s =
     s\<lparr>hash_table := map (\<lambda>e. e\<lparr>entry_state := RWLOCK_EMPTY\<rparr>) (hash_table s),
       current_count := 0, deleted_count := 0\<rparr>"

definition rehashIfNeeded :: "RWLockOptimizedSharedData \<Rightarrow> int \<times> RWLockOptimizedSharedData" where
  "rehashIfNeeded s =
     (if \<not> needRehash s then (OK, s)
      else let temp_data = collect_occupied (hash_table s) [] in
           reinsert (clear_states s) temp_data)"

section \<open>Public operations\<close>

definition addRsc ::
  "RWLockOptimizedSharedData \<Rightarrow> 32 word \<Rightarrow> string \<Rightarrow> int \<times> RWLockOptimizedSharedData" where
  "addRsc s rsc_key rsc_value =
     (if length rsc_value \<ge> MAX_VALUE_LEN then (NO_SPACE_ERR, s)
      else case rehashIfNeeded s of (rc, s1) \<Rightarrow>
        if rc \<noteq> OK then (NO_SPACE_ERR, s1)
        else let hash_val = hash (hash_seed s1) rsc_key in
          case findEmptySlot s1 rsc_key hash_val of
            None \<Rightarrow>
              (if current_count s1 \<ge> RWLOCK_MAX_ENTRIES then NO_SPACE_ERR else DUPLICATE_KEY, s1)
          | Some pos \<Rightarrow>
              let s2 = (if entry_state (hash_table s1 ! pos) = RWLOCK_DELETED
                        then s1\<lparr>deleted_count := deleted_count s1 - 1\<rparr> else s1)
              in (OK, store_entry s2 pos rsc_key rsc_value hash_val))"

text \<open>The value overwrite that \<^verbatim>\<open>updateRsc\<close>, \<^verbatim>\<open>upsertRsc\<close> and \<^verbatim>\<open>batchUpdateRsc\<close> perform on
  a found entry.\<close>

definition overwrite_value ::
  "RWLockOptimizedSharedData \<Rightarrow> nat \<Rightarrow> string \<Rightarrow> RWLockOptimizedSharedData" where
  "overwrite_value s pos v =
     s\<lparr>hash_table := (hash_table s)[pos :=
          (hash_table s ! pos)\<lparr>entry_value := write_value (entry_value (hash_table s ! pos)) v\<rparr>]\<rparr>"

definition updateRsc ::
  "RWLockOptimizedSharedData \<Rightarrow> 32 word \<Rightarrow> string \<Rightarrow> int \<times> RWLockOptimizedSharedData" where
  "updateRsc s rsc_key rsc_value =
     (if length rsc_value \<ge> MAX_VALUE_LEN then (NO_SPACE_ERR, s)
      else case findEntry s rsc_key (hash (hash_seed s) rsc_key) of
             None \<Rightarrow> (NOT_FOUND, s)
           | Some pos \<Rightarrow> (OK, overwrite_value s pos rsc_value))"

definition upsertRsc ::
  "RWLockOptimizedSharedData \<Rightarrow> 32 word \<Rightarrow> string \<Rightarrow> int \<times> RWLockOptimizedSharedData" where
  "upsertRsc s rsc_key rsc_value =
     (if length rsc_value \<ge> MAX_VALUE_LEN then (NO_SPACE_ERR, s)
      else let hash_val = hash (hash_seed s) rsc_key in
        case findEntry s rsc_key hash_val of
          Some pos \<Rightarrow> (OK, overwrite_value s pos rsc_value)
        | None \<Rightarrow>
           (case rehashIfNeeded s of (rc, s1) \<Rightarrow>
              if rc \<noteq> OK then (NO_SPACE_ERR, s1)
              else case findEmptySlot s1 rsc_key hash_val of
                None \<Rightarrow> (NO_SPACE_ERR, s1)
              | Some pos \<Rightarrow>
                  let s2 = (if entry_state (hash_table s1 ! pos) = RWLOCK_DELETED
                            then s1\<lparr>deleted_count := deleted_count s1 - 1\<rparr> else s1)
                  in (OK, store_entry s2 pos rsc_key rsc_value hash_val)))"

definition getRsc :: "RWLockOptimizedSharedData \<Rightarrow> 32 word \<Rightarrow> string" where
  "getRsc s rsc_key =
     (case findEntry s rsc_key (hash (hash_seed s) rsc_key) of
        None \<Rightarrow> []
      | Some pos \<Rightarrow> c_str (entry_value (hash_table s ! pos)))"

definition removeRsc :: "RWLockOptimizedSharedData \<Rightarrow> 32 word \<Rightarrow> int \<times> RWLockOptimizedSharedData" where
  "removeRsc s rsc_key =
     (case findEntry s rsc_key (hash (hash_seed s) rsc_key) of
        None \<Rightarrow> (NOT_FOUND, s)
      | Some pos \<Rightarrow>
          (OK, s\<lparr>hash_table := (hash_table s)[pos :=
                    (hash_table s ! pos)\<lparr>entry_state := RWLOCK_DELETED\<rparr>],
                 current_count := current_count s - 1,
                 deleted_count := deleted_count s + 1\<rparr>))"

definition isContain :: "RWLockOptimizedSharedData \<Rightarrow> 32 word \<Rightarrow> bool" where
  "isContain s rsc_key \<longleftrightarrow> findEntry s rsc_key (hash (hash_seed s) rsc_key) \<noteq> None"

text \<open>One iteration of the loop of \<^verbatim>\<open>batchUpdateRsc\<close> over the pairs of \<^verbatim>\<open>updated_map\<close>,
  on the pair (table, \<^verbatim>\<open>success_count\<close>).\<close>

definition batch_step ::
  "RWLockOptimizedSharedData \<times> int \<Rightarrow> 32 word \<times> string \<Rightarrow> RWLockOptimizedSharedData \<times> int" where
  "batch_step acc pair =
     (case acc of (s, success_count) \<Rightarrow>
        if length (snd pair) \<ge> MAX_VALUE_LEN then (s, success_count)
        else case findEntry s (fst pair) (hash (hash_seed s) (fst pair)) of
               Some pos \<Rightarrow> (overwrite_value s pos (snd pair), success_count + 1)
             | None \<Rightarrow> (s, success_count))"

text \<open>\<^verbatim>\<open>batchUpdateRsc\<close>: the argument is the sequence of pairs of the \<^verbatim>\<open>std::map\<close> in
  iteration order.\<close>

definition batchUpdateRsc ::
  "RWLockOptimizedSharedData \<Rightarrow> (32 word \<times> string) list \<Rightarrow> int \<times> RWLockOptimizedSharedData" where
  "batchUpdateRsc s updated_map =
     (case foldl batch_step (s, 0) updated_map of (s', success_count) \<Rightarrow> (success_count, s'))"

definition rscNum :: "RWLockOptimizedSharedData \<Rightarrow> int" where
  "rscNum s = current_count s"

definition clearRsc :: "RWLockOptimizedSharedData \<Rightarrow> int \<times> RWLockOptimizedSharedData" where
  "clearRsc s = (OK, clear_states s)"

section \<open>Segment creation and cleanup\<close>

text \<open>The creator path of the constructor: the counters are zeroed, the seed is the value
  drawn from \<^verbatim>\<open>std::random_device\<close>, and every slot is set to state empty, key 0,
  \<^verbatim>\<open>value[0] = 0\<close>, cached hash 0. The segment is fresh from \<^verbatim>\<open>ftruncate\<close>, so the other
  bytes of each value buffer are zero as well.\<close>

definition init_entry :: RWLockHashEntry where
  "init_entry = \<lparr>entry_key = 0, entry_value = replicate MAX_VALUE_LEN NUL,
                 entry_state = RWLOCK_EMPTY, entry_hash_value = 0\<rparr>"

definition init_shared_data :: "32 word \<Rightarrow> RWLockOptimizedSharedData" where
  "init_shared_data seed =
     \<lparr>current_count = 0, deleted_count = 0, hash_seed = seed,
      hash_table = replicate RWLOCK_HASH_TABLE_SIZE init_entry\<rparr>"

text \<open>The outcome of \<^verbatim>\<open>shm_unlink\<close>: success, or \<^verbatim>\<open>-1\<close> with a value of \<^verbatim>\<open>errno\<close>.\<close>

datatype shm_unlink_result = Unlinked | UnlinkFailed int

text \<open>\<^verbatim>\<open>cleanup\<close> is a static member: it reads the result of \<^verbatim>\<open>shm_unlink\<close> and never
  touches the mapped table, which is passed through.\<close>

definition cleanup ::
  "shm_unlink_result \<Rightarrow> RWLockOptimizedSharedData \<Rightarrow> int \<times> RWLockOptimizedSharedData" where
  "cleanup r s =
     (case r of
        Unlinked \<Rightarrow> (OK, s)
      | UnlinkFailed errno \<Rightarrow> if errno \<noteq> ENOENT then (- 1, s) else (OK, s))"

section \<open>Table invariants and the logical content\<close>

text \<open>The condition under which both probing loops report a match at slot \<open>i\<close>.\<close>

definition key_at :: "RWLockHashEntry list \<Rightarrow> 32 word \<Rightarrow> nat \<Rightarrow> bool" where
  "key_at tbl k i \<longleftrightarrow> entry_state (tbl ! i) = RWLOCK_OCCUPIED \<and> entry_key (tbl ! i) = k"

text \<open>The probe sequence of key \<open>k\<close> under a seed, as the loops generate it.\<close>

definition probe_of :: "32 word \<Rightarrow> 32 word \<Rightarrow> nat \<Rightarrow> nat" where
  "probe_of seed k t = probe_seq (unat (hash seed k)) (hash2 seed k) t"

text \<open>Slot \<open>i\<close> lies on the probe sequence of \<open>k\<close>, with no empty slot before it.\<close>

definition slot_reachable :: "32 word \<Rightarrow> RWLockHashEntry list \<Rightarrow> 32 word \<Rightarrow> nat \<Rightarrow> bool" where
  "slot_reachable seed tbl k i \<longleftrightarrow>
     (\<exists>t<RWLOCK_HASH_TABLE_SIZE. probe_of seed k t = i \<and>
        (\<forall>u<t. entry_state (tbl ! probe_of seed k u) \<noteq> RWLOCK_EMPTY))"

definition count_state :: "RWLockEntryState \<Rightarrow> RWLockHashEntry list \<Rightarrow> int" where
  "count_state st tbl = int (length (filter (\<lambda>e. entry_state e = st) tbl))"

text \<open>The invariants of the table: the array has its fixed size, the counters agree with
  the slot states, every occupied slot is reachable by probing for its key, keys of occupied
  slots are unique, and every value buffer has its fixed size and holds a NUL.\<close>

definition table_inv :: "RWLockOptimizedSharedData \<Rightarrow> bool" where
  "table_inv s \<longleftrightarrow>
     length (hash_table s) = RWLOCK_HASH_TABLE_SIZE \<and>
     current_count s = count_state RWLOCK_OCCUPIED (hash_table s) \<and>
     deleted_count s = count_state RWLOCK_DELETED (hash_table s) \<and>
     (\<forall>i<RWLOCK_HASH_TABLE_SIZE. entry_state (hash_table s ! i) = RWLOCK_OCCUPIED \<longrightarrow>
        slot_reachable (hash_seed s) (hash_table s) (entry_key (hash_table s ! i)) i) \<and>
     (\<forall>i<RWLOCK_HASH_TABLE_SIZE. \<forall>j<RWLOCK_HASH_TABLE_SIZE.
        entry_state (hash_table s ! i) = RWLOCK_OCCUPIED \<and>
        entry_state (hash_table s ! j) = RWLOCK_OCCUPIED \<and>
        entry_key (hash_table s ! i) = entry_key (hash_table s ! j) \<longrightarrow> i = j) \<and>
     (\<forall>i<RWLOCK_HASH_TABLE_SIZE. length (entry_value (hash_table s ! i)) = MAX_VALUE_LEN \<and>
        NUL \<in> set (entry_value (hash_table s ! i)))"

text \<open>The key-to-value map that the table holds: the occupied slot with the key, read as a
  C string.\<close>

definition logical_map :: "RWLockOptimizedSharedData \<Rightarrow> 32 word \<Rightarrow> string option" where
  "logical_map s k =
     map_option (\<lambda>e. c_str (entry_value e))
       (find (\<lambda>e. entry_state e = RWLOCK_OCCUPIED \<and> entry_key e = k) (hash_table s))"

text \<open>The set of (key, value) pairs of the occupied slots, values read as C strings.\<close>

definition occupied_pairs :: "RWLockOptimizedSharedData \<Rightarrow> (32 word \<times> string) set" where
  "occupied_pairs s =
     set (map (\<lambda>e. (entry_key e, c_str (entry_value e)))
            (filter (\<lambda>e. entry_state e = RWLOCK_OCCUPIED) (hash_table s)))"

section \<open>Sequences of public operations\<close>

datatype table_op =
    Add "32 word" string
  | Update "32 word" string
  | Upsert "32 word" string
  | Remove "32 word"
  | Clear
  | BatchUpdate "(32 word \<times> string) list"

fun apply_op :: "RWLockOptimizedSharedData \<Rightarrow> table_op \<Rightarrow> int \<times> RWLockOptimizedSharedData" where
  "apply_op s (Add k v) = addRsc s k v"
| "apply_op s (Update k v) = updateRsc s k v"
| "apply_op s (Upsert k v) = upsertRsc s k v"
| "apply_op s (Remove k) = removeRsc s k"
| "apply_op s Clear = clearRsc s"
| "apply_op s (BatchUpdate m) = batchUpdateRsc s m"

text \<open>The table after a sequence of operations, and the return codes along the way.\<close>

fun run_ops :: "RWLockOptimizedSharedData \<Rightarrow> table_op list \<Rightarrow> RWLockOptimizedSharedData" where
  "run_ops s [] = s"
| "run_ops s (x # xs) = run_ops (snd (apply_op s x)) xs"

fun run_rets :: "RWLockOptimizedSharedData \<Rightarrow> table_op list \<Rightarrow> int list" where
  "run_rets s [] = []"
| "run_rets s (x # xs) = fst (apply_op s x) # run_rets (snd (apply_op s x)) xs"

text \<open>The sequence \<^verbatim>\<open>addRsc(lo, ""), addRsc(lo + 1, ""), ...\<close> of \<open>n\<close> insertions of distinct keys
  with the empty value.\<close>

fun add_keys :: "nat \<Rightarrow> nat \<Rightarrow> table_op list" where
  "add_keys lo 0 = []"
| "add_keys lo (Suc n) = Add (word_of_nat lo) [] # add_keys (Suc lo) n"

text \<open>The operations that may overwrite or delete the value of key \<open>k\<close>: an update, upsert or
  remove of \<open>k\<close>, a batch update that lists \<open>k\<close>, and clear.\<close>

fun touches :: "32 word \<Rightarrow> table_op \<Rightarrow> bool" where
  "touches k (Add k' v) = False"
| "touches k (Update k' v) = (k' = k)"
| "touches k (Upsert k' v) = (k' = k)"
| "touches k (Remove k') = (k' = k)"
| "touches k Clear = True"
| "touches k (BatchUpdate m) = (k \<in> fst ` set m)"

section \<open>Arithmetic of the probe sequence\<close>

lemmas retcode_defs = OK_def NOT_FOUND_def NO_SPACE_ERR_def DUPLICATE_KEY_def

lemma mask_2047: "(word_of_nat RWLOCK_HASH_TABLE_SIZE - 1 :: 32 word) = mask 11"
  by (simp add: RWLOCK_HASH_TABLE_SIZE_def mask_eq_exp_minus_1)

lemma getNextProbe_nat:
  "getNextProbe p st h2 = (p + st * unat h2) mod 2048"
proof -
  have "getNextProbe p st h2 = unat (take_bit 11 (word_of_nat p + word_of_nat st * h2 :: 32 word))"
    by (simp add: getNextProbe_def mask_2047 take_bit_eq_mask)
  also have "\<dots> = unat (word_of_nat p + word_of_nat st * h2 :: 32 word) mod 2 ^ 11"
    by (simp add: take_bit_eq_mod unat_mod)
  also have "\<dots> = ((p + st * unat h2) mod 2 ^ 32) mod 2 ^ 11"
    by (simp add: unat_word_ariths unat_of_nat mod_simps)
  also have "\<dots> = (p + st * unat h2) mod 2 ^ 11"
    by (rule mod_mod_cancel) simp
  finally show ?thesis by simp
qed

lemma tri_double: "2 * tri n = n * (n + 1)"
  by (induction n) simp_all

lemma probe_seq_closed:
  "h < 2048 \<Longrightarrow> probe_seq h h2 s = (h + tri s * unat h2) mod 2048"
proof (induction s)
  case 0 then show ?case by simp
next
  case (Suc s)
  have "probe_seq h h2 (Suc s) = ((h + tri s * unat h2) mod 2048 + Suc s * unat h2) mod 2048"
    using Suc by (simp add: getNextProbe_nat)
  also have "\<dots> = (h + tri s * unat h2 + Suc s * unat h2) mod 2048"
    by (simp add: mod_add_left_eq)
  also have "\<dots> = (h + tri (Suc s) * unat h2) mod 2048"
    by (simp add: algebra_simps)
  finally show ?case .
qed

lemma tri_mono: "a \<le> b \<Longrightarrow> tri a \<le> tri b"
  by (induction b) (auto simp: le_Suc_eq)

lemma tri_diff: "a \<le> b \<Longrightarrow> 2 * (tri b - tri a) = (b - a) * (a + b + 1)"
proof -
  assume ab: "a \<le> b"
  then obtain d where d: "b = a + d" using le_Suc_ex by blast
  have "2 * (tri b - tri a) = 2 * tri b - 2 * tri a" by simp
  also have "\<dots> = b * (b + 1) - a * (a + 1)" by (simp only: tri_double)
  also have "\<dots> = (b - a) * (a + b + 1)" unfolding d by (simp add: algebra_simps)
  finally show ?thesis .
qed

lemma coprime_pow2: "odd (m::nat) \<Longrightarrow> coprime (2 ^ n) m"
  by (cases "n = 0") (simp_all add: coprime_left_2_iff_odd)

lemma tri_inj_mod:
  assumes ab: "a < b" and b: "b < 2048" and m: "odd m"
    and eq: "(h + tri a * m) mod 2048 = (h + tri b * m) mod 2048"
  shows False
proof -
  have le: "tri a \<le> tri b" using ab by (simp add: tri_mono)
  have "(h + tri b * m) = (h + tri a * m) + (tri b - tri a) * m"
    using le by (simp add: algebra_simps flip: add_mult_distrib)
  then have "((h + tri a * m) + (tri b - tri a) * m) mod 2048 = (h + tri a * m) mod 2048"
    using eq by presburger
  then have "2048 dvd (tri b - tri a) * m"
    by (metis add_diff_cancel_left' mod_eq_dvd_iff_nat le_add1)
  moreover have "coprime (2048::nat) m"
    using coprime_pow2[OF m, of 11] by simp
  ultimately have d: "2048 dvd (tri b - tri a)"
    by (simp add: coprime_dvd_mult_left_iff)
  then have "2 * 2048 dvd 2 * (tri b - tri a)" by (rule mult_dvd_mono[OF dvd_refl])
  define x where "x = b - a"
  define y where "y = a + b + 1"
  have d2: "4096 dvd x * y" using \<open>2 * 2048 dvd 2 * (tri b - tri a)\<close> tri_diff[of a b] ab
    by (simp add: x_def y_def)
  have pos1: "0 < x" "x < 4096" using ab b by (auto simp: x_def)
  have pos2: "0 < y" "y < 4096" using ab b by (auto simp: y_def)
  have par: "odd x \<or> odd y" using ab by (auto simp: x_def y_def)
  show False
  proof (cases "odd x")
    case True
    then have "coprime (4096 :: nat) x" using coprime_pow2[of x 12] by simp
    then have "4096 dvd y" using d2 coprime_dvd_mult_right_iff by blast
    then show False using pos2 by (auto dest: dvd_imp_le)
  next
    case False
    then have "odd y" using par by simp
    then have "coprime (4096 :: nat) y" using coprime_pow2[of y 12] by simp
    then have "4096 dvd x" using d2 coprime_dvd_mult_left_iff by blast
    then show False using pos1 by (auto dest: dvd_imp_le)
  qed
qed

lemma unat_and_table_mask: "unat ((x :: 32 word) AND (word_of_nat RWLOCK_HASH_TABLE_SIZE - 1)) = unat x mod 2048"
proof -
  have "unat (x AND mask 11) = unat (take_bit 11 x)" by (simp only: take_bit_eq_mask)
  also have "\<dots> = unat x mod 2048" by (simp add: take_bit_eq_mod unat_mod)
  finally show ?thesis by (simp only: mask_2047)
qed

lemma hash_lt: "unat (hash seed k) < 2048"
  unfolding hash_def Let_def unat_and_table_mask by simp

lemma getNextProbe_lt: "getNextProbe p st h2 < 2048"
  by (simp add: getNextProbe_nat)

lemma unat_or_1_odd: "odd (unat ((x :: 32 word) OR 1))"
proof -
  have "bit (x OR 1) 0" by (simp add: bit_or_iff)
  then have "bit (unat (x OR 1)) 0" by (simp add: bit_unsigned_iff)
  then show ?thesis by (simp add: bit_0)
qed

lemma hash2_odd: "odd (unat (hash2 seed k))"
  unfolding hash2_def Let_def by (rule unat_or_1_odd)

lemma probe_seq_lt: "h < 2048 \<Longrightarrow> probe_seq h h2 s < 2048"
  by (cases s) (simp_all add: getNextProbe_lt)

lemma probe_seq_inj:
  assumes "h < 2048" "odd (unat h2)" "a < 2048" "b < 2048"
    and "probe_seq h h2 a = probe_seq h h2 b"
  shows "a = b"
proof (rule ccontr)
  assume ne: "a \<noteq> b"
  have eq: "(h + tri a * unat h2) mod 2048 = (h + tri b * unat h2) mod 2048"
    using assms by (simp add: probe_seq_closed)
  show False
  proof (cases "a < b")
    case True
    then show False using tri_inj_mod[OF True assms(4) assms(2) eq] by simp
  next
    case False
    then have "b < a" using ne by simp
    then show False using tri_inj_mod[OF _ assms(3) assms(2) eq[symmetric]] by simp
  qed
qed

lemma probe_seq_surj:
  assumes h: "h < 2048" and m: "odd (unat h2)" and i: "i < 2048"
  shows "\<exists>t<2048. probe_seq h h2 t = i"
proof -
  have inj: "inj_on (probe_seq h h2) {..<2048}"
    by (rule inj_onI) (use probe_seq_inj[OF h m] in auto)
  have sub: "probe_seq h h2 ` {..<2048} \<subseteq> {..<2048}"
    using probe_seq_lt[OF h] by auto
  have "probe_seq h h2 ` {..<2048} = {..<2048}"
    by (rule endo_inj_surj[OF _ sub inj]) simp
  then have "i \<in> probe_seq h h2 ` {..<2048}" using i by simp
  then show ?thesis by auto
qed

section \<open>The probing loops, step by step\<close>

declare findEntry_loop.simps [simp del] findEmptySlot_loop.simps [simp del]

lemma findEntry_loop_unfold:
  "step < 2048 \<Longrightarrow>
   findEntry_loop tbl k h2 (probe_seq h h2 step) step =
     (if entry_state (tbl ! probe_seq h h2 step) = RWLOCK_EMPTY then None
      else if key_at tbl k (probe_seq h h2 step) then Some (probe_seq h h2 step)
      else findEntry_loop tbl k h2 (probe_seq h h2 (Suc step)) (Suc step))"
  by (subst findEntry_loop.simps) (simp add: RWLOCK_HASH_TABLE_SIZE_def key_at_def Let_def)

lemma findEntry_loop_end: "\<not> step < 2048 \<Longrightarrow> findEntry_loop tbl k h2 pos step = None"
  by (subst findEntry_loop.simps) (simp add: RWLOCK_HASH_TABLE_SIZE_def)

lemma findEmptySlot_loop_unfold:
  "step < 2048 \<Longrightarrow>
   findEmptySlot_loop tbl k h2 (probe_seq h h2 step) fd step =
     (if entry_state (tbl ! probe_seq h h2 step) = RWLOCK_EMPTY
      then (if fd \<noteq> None then fd else Some (probe_seq h h2 step))
      else if key_at tbl k (probe_seq h h2 step) then None
      else findEmptySlot_loop tbl k h2 (probe_seq h h2 (Suc step))
             (if entry_state (tbl ! probe_seq h h2 step) = RWLOCK_DELETED \<and> fd = None
              then Some (probe_seq h h2 step) else fd) (Suc step))"
  by (subst findEmptySlot_loop.simps) (simp add: RWLOCK_HASH_TABLE_SIZE_def key_at_def Let_def)

lemma findEmptySlot_loop_end:
  "\<not> step < 2048 \<Longrightarrow> findEmptySlot_loop tbl k h2 pos fd step = fd"
  by (subst findEmptySlot_loop.simps) (simp add: RWLOCK_HASH_TABLE_SIZE_def)

lemma findEntry_loop_Some:
  assumes "findEntry_loop tbl k h2 (probe_seq h h2 step) step = Some p"
  shows "\<exists>t. step \<le> t \<and> t < 2048 \<and> p = probe_seq h h2 t \<and> key_at tbl k p \<and>
           (\<forall>u. step \<le> u \<and> u < t \<longrightarrow> entry_state (tbl ! probe_seq h h2 u) \<noteq> RWLOCK_EMPTY)"
  using assms
proof (induction "2048 - step" arbitrary: step)
  case 0
  then show ?case by (simp add: findEntry_loop_end)
next
  case (Suc n)
  then have lt: "step < 2048" by simp
  show ?case
  proof (cases "key_at tbl k (probe_seq h h2 step)")
    case True
    with Suc.prems lt have "p = probe_seq h h2 step"
      by (simp add: findEntry_loop_unfold split: if_splits)
    with True lt show ?thesis by (intro exI[of _ step]) auto
  next
    case False
    with Suc.prems lt have ne: "entry_state (tbl ! probe_seq h h2 step) \<noteq> RWLOCK_EMPTY"
      and rec: "findEntry_loop tbl k h2 (probe_seq h h2 (Suc step)) (Suc step) = Some p"
      by (simp_all add: findEntry_loop_unfold split: if_splits)
    from Suc.hyps have "n = 2048 - Suc step" by simp
    from Suc.hyps(1)[OF this rec] obtain t where t: "Suc step \<le> t" "t < 2048"
      "p = probe_seq h h2 t" "key_at tbl k p"
      "\<forall>u. Suc step \<le> u \<and> u < t \<longrightarrow> entry_state (tbl ! probe_seq h h2 u) \<noteq> RWLOCK_EMPTY"
      by blast
    have "\<forall>u. step \<le> u \<and> u < t \<longrightarrow> entry_state (tbl ! probe_seq h h2 u) \<noteq> RWLOCK_EMPTY"
      using t(5) ne by (metis Suc_leI le_neq_implies_less)
    with t show ?thesis by (intro exI[of _ t]) simp
  qed
qed

lemma findEntry_loop_found:
  assumes "t < 2048" "step \<le> t" "key_at tbl k (probe_seq h h2 t)"
    and "\<forall>u. step \<le> u \<and> u < t \<longrightarrow>
           entry_state (tbl ! probe_seq h h2 u) \<noteq> RWLOCK_EMPTY \<and> \<not> key_at tbl k (probe_seq h h2 u)"
  shows "findEntry_loop tbl k h2 (probe_seq h h2 step) step = Some (probe_seq h h2 t)"
  using assms
proof (induction "t - step" arbitrary: step)
  case 0
  then have "step = t" by simp
  with 0 show ?case by (simp add: findEntry_loop_unfold key_at_def)
next
  case (Suc n)
  then have lt: "step < t" "step < 2048" by simp_all
  with Suc.prems have here: "entry_state (tbl ! probe_seq h h2 step) \<noteq> RWLOCK_EMPTY"
    "\<not> key_at tbl k (probe_seq h h2 step)" by simp_all
  have "findEntry_loop tbl k h2 (probe_seq h h2 (Suc step)) (Suc step) = Some (probe_seq h h2 t)"
    using Suc.hyps(2) Suc.prems lt by (intro Suc.hyps(1)) auto
  with here lt show ?case by (simp add: findEntry_loop_unfold)
qed

lemma findEmptySlot_loop_Some:
  assumes "findEmptySlot_loop tbl k h2 (probe_seq h h2 step) fd step = Some p"
    and "\<forall>u< step. entry_state (tbl ! probe_seq h h2 u) \<noteq> RWLOCK_EMPTY"
    and "\<forall>q. fd = Some q \<longrightarrow> (\<exists>t< step. q = probe_seq h h2 t \<and> entry_state (tbl ! q) = RWLOCK_DELETED)"
    and "step \<le> 2048"
  shows "\<exists>t<2048. p = probe_seq h h2 t \<and> entry_state (tbl ! p) \<noteq> RWLOCK_OCCUPIED \<and>
           (\<forall>u<t. entry_state (tbl ! probe_seq h h2 u) \<noteq> RWLOCK_EMPTY)"
  using assms
proof (induction "2048 - step" arbitrary: step fd)
  case 0
  then have "step = 2048" and "fd = Some p" by (simp_all add: findEmptySlot_loop_end)
  with 0 show ?case by auto
next
  case (Suc n)
  then have lt: "step < 2048" by simp
  let ?pos = "probe_seq h h2 step"
  show ?case
  proof (cases "entry_state (tbl ! ?pos) = RWLOCK_EMPTY")
    case True
    show ?thesis
    proof (cases fd)
      case None
      with True Suc.prems(1) lt have "p = ?pos" by (simp add: findEmptySlot_loop_unfold)
      with True lt Suc.prems(2) show ?thesis by (intro exI[of _ step]) simp
    next
      case (Some q)
      with True Suc.prems(1) lt have "p = q" by (simp add: findEmptySlot_loop_unfold)
      with Some Suc.prems(3) obtain t where "t < step" "p = probe_seq h h2 t"
        "entry_state (tbl ! p) = RWLOCK_DELETED" by auto
      with lt Suc.prems(2) show ?thesis by (intro exI[of _ t]) simp
    qed
  next
    case False
    let ?fd' = "if entry_state (tbl ! ?pos) = RWLOCK_DELETED \<and> fd = None then Some ?pos else fd"
    from False Suc.prems(1) lt
    have rec: "findEmptySlot_loop tbl k h2 (probe_seq h h2 (Suc step)) ?fd' (Suc step) = Some p"
      by (auto simp add: findEmptySlot_loop_unfold split: if_splits)
    have a: "\<forall>u< Suc step. entry_state (tbl ! probe_seq h h2 u) \<noteq> RWLOCK_EMPTY"
      using Suc.prems(2) False by (simp add: less_Suc_eq)
    have b: "\<forall>q. ?fd' = Some q \<longrightarrow>
               (\<exists>t< Suc step. q = probe_seq h h2 t \<and> entry_state (tbl ! q) = RWLOCK_DELETED)"
      using Suc.prems(3) by (auto simp: less_Suc_eq)
    from Suc.hyps(2) have n: "n = 2048 - Suc step" by simp
    show ?thesis using Suc.hyps(1)[OF n rec a b] lt by simp
  qed
qed

lemma findEmptySlot_loop_Some_absent:
  assumes "findEmptySlot_loop tbl k h2 (probe_seq h h2 step) fd step = Some p"
    and "\<forall>u< step. \<not> key_at tbl k (probe_seq h h2 u)"
    and "step \<le> 2048"
  shows "\<forall>t<2048. (\<forall>u<t. entry_state (tbl ! probe_seq h h2 u) \<noteq> RWLOCK_EMPTY) \<longrightarrow>
           \<not> key_at tbl k (probe_seq h h2 t)"
  using assms
proof (induction "2048 - step" arbitrary: step fd)
  case 0
  then show ?case by simp
next
  case (Suc n)
  then have lt: "step < 2048" by simp
  let ?pos = "probe_seq h h2 step"
  show ?case
  proof (cases "entry_state (tbl ! ?pos) = RWLOCK_EMPTY")
    case True
    show ?thesis
    proof (intro allI impI)
      fix t assume t: "t < 2048" "\<forall>u<t. entry_state (tbl ! probe_seq h h2 u) \<noteq> RWLOCK_EMPTY"
      with True have "t \<le> step" by (meson not_le_imp_less)
      then show "\<not> key_at tbl k (probe_seq h h2 t)"
        using Suc.prems(2) True by (cases "t = step") (auto simp: key_at_def)
    qed
  next
    case False
    let ?fd' = "if entry_state (tbl ! ?pos) = RWLOCK_DELETED \<and> fd = None then Some ?pos else fd"
    from False Suc.prems(1) lt
    have nk: "\<not> key_at tbl k ?pos"
      and rec: "findEmptySlot_loop tbl k h2 (probe_seq h h2 (Suc step)) ?fd' (Suc step) = Some p"
      by (auto simp add: findEmptySlot_loop_unfold split: if_splits)
    have a: "\<forall>u< Suc step. \<not> key_at tbl k (probe_seq h h2 u)"
      using Suc.prems(2) nk by (simp add: less_Suc_eq)
    from Suc.hyps(2) have n: "n = 2048 - Suc step" by simp
    show ?thesis using Suc.hyps(1)[OF n rec a] lt by simp
  qed
qed

lemma findEmptySlot_loop_exists:
  assumes "\<forall>u. step \<le> u \<and> u < 2048 \<longrightarrow> \<not> key_at tbl k (probe_seq h h2 u)"
    and "fd \<noteq> None \<or> (\<exists>t. step \<le> t \<and> t < 2048 \<and>
           entry_state (tbl ! probe_seq h h2 t) \<noteq> RWLOCK_OCCUPIED)"
  shows "findEmptySlot_loop tbl k h2 (probe_seq h h2 step) fd step \<noteq> None"
  using assms
proof (induction "2048 - step" arbitrary: step fd)
  case 0
  then show ?case by (auto simp add: findEmptySlot_loop_end)
next
  case (Suc n)
  then have lt: "step < 2048" by simp
  let ?pos = "probe_seq h h2 step"
  show ?case
  proof (cases "entry_state (tbl ! ?pos) = RWLOCK_EMPTY")
    case True
    with lt show ?thesis by (simp add: findEmptySlot_loop_unfold)
  next
    case False
    let ?fd' = "if entry_state (tbl ! ?pos) = RWLOCK_DELETED \<and> fd = None then Some ?pos else fd"
    have nk: "\<not> key_at tbl k ?pos" using Suc.prems(1) lt by simp
    have a: "\<forall>u. Suc step \<le> u \<and> u < 2048 \<longrightarrow> \<not> key_at tbl k (probe_seq h h2 u)"
      using Suc.prems(1) by simp
    have b: "?fd' \<noteq> None \<or> (\<exists>t. Suc step \<le> t \<and> t < 2048 \<and>
           entry_state (tbl ! probe_seq h h2 t) \<noteq> RWLOCK_OCCUPIED)"
    proof (cases "fd \<noteq> None \<or> entry_state (tbl ! ?pos) = RWLOCK_DELETED")
      case True
      then show ?thesis by auto
    next
      case F: False
      with False have occ: "entry_state (tbl ! ?pos) = RWLOCK_OCCUPIED"
        by (cases "entry_state (tbl ! ?pos)") auto
      from F Suc.prems(2) obtain t where t: "step \<le> t" "t < 2048"
        "entry_state (tbl ! probe_seq h h2 t) \<noteq> RWLOCK_OCCUPIED" by auto
      with occ have "t \<noteq> step" by auto
      with t have "Suc step \<le> t" by simp
      with t show ?thesis by blast
    qed
    from Suc.hyps(2) have n: "n = 2048 - Suc step" by simp
    have "findEmptySlot_loop tbl k h2 (probe_seq h h2 (Suc step)) ?fd' (Suc step) \<noteq> None"
      by (rule Suc.hyps(1)[OF n a b])
    with False nk lt show ?thesis by (simp add: findEmptySlot_loop_unfold)
  qed
qed

lemma findEmptySlot_loop_dup:
  assumes "t < 2048" "step \<le> t" "key_at tbl k (probe_seq h h2 t)"
    and "\<forall>u. step \<le> u \<and> u < t \<longrightarrow> entry_state (tbl ! probe_seq h h2 u) \<noteq> RWLOCK_EMPTY"
  shows "findEmptySlot_loop tbl k h2 (probe_seq h h2 step) fd step = None"
  using assms
proof (induction "t - step" arbitrary: step fd)
  case 0
  then have "step = t" by simp
  with 0 show ?case by (simp add: findEmptySlot_loop_unfold key_at_def)
next
  case (Suc n)
  then have lt: "step < t" "step < 2048" by simp_all
  with Suc.prems have here: "entry_state (tbl ! probe_seq h h2 step) \<noteq> RWLOCK_EMPTY" by simp
  have "\<And>fd'. findEmptySlot_loop tbl k h2 (probe_seq h h2 (Suc step)) fd' (Suc step) = None"
    using Suc.hyps(2) Suc.prems lt by (intro Suc.hyps(1)) auto
  with here lt show ?case by (simp add: findEmptySlot_loop_unfold)
qed

section \<open>The value length gate\<close>

lemma batch_step_too_long:
  "length v \<ge> MAX_VALUE_LEN \<Longrightarrow> batch_step (s, n) (k, v) = (s, n)"
  by (simp add: batch_step_def)

text \<open>C7: a value of length at least \<open>MAX_VALUE_LEN\<close> makes \<open>addRsc\<close>, \<open>updateRsc\<close> and
  \<open>upsertRsc\<close> return \<open>NO_SPACE_ERR\<close> with the table untouched, in every table state; the
  loop of \<open>batchUpdateRsc\<close> skips such a pair, leaving table and success count as they are,
  so the batch behaves as if the pair were not in the map.\<close>

theorem value_length_gate:
  assumes "length v \<ge> MAX_VALUE_LEN"
  shows "addRsc s k v = (NO_SPACE_ERR, s) \<and>
         updateRsc s k v = (NO_SPACE_ERR, s) \<and>
         upsertRsc s k v = (NO_SPACE_ERR, s) \<and>
         batch_step (s, n) (k, v) = (s, n) \<and>
         batchUpdateRsc s (xs @ (k, v) # ys) = batchUpdateRsc s (xs @ ys)"
proof -
  have "foldl batch_step (s, 0) (xs @ (k, v) # ys) = foldl batch_step (s, 0) (xs @ ys)"
    using assms by (cases "foldl batch_step (s, 0) xs") (simp add: batch_step_too_long)
  then show ?thesis
    using assms by (simp add: addRsc_def updateRsc_def upsertRsc_def batchUpdateRsc_def batch_step_too_long)
qed

theorem value_length_gate_witness:
  "length (replicate 256 (CHR ''x'')) \<ge> MAX_VALUE_LEN \<and>
   addRsc (init_shared_data 0) 7 (replicate 256 (CHR ''x'')) = (NO_SPACE_ERR, init_shared_data 0) \<and>
   updateRsc (init_shared_data 0) 7 (replicate 256 (CHR ''x'')) = (NO_SPACE_ERR, init_shared_data 0) \<and>
   upsertRsc (init_shared_data 0) 7 (replicate 256 (CHR ''x'')) = (NO_SPACE_ERR, init_shared_data 0) \<and>
   batch_step (init_shared_data 0, 0) (7, replicate 256 (CHR ''x'')) = (init_shared_data 0, 0) \<and>
   batchUpdateRsc (init_shared_data 0) ([] @ (7, replicate 256 (CHR ''x'')) # []) =
     batchUpdateRsc (init_shared_data 0) ([] @ [])"
proof -
  have h: "length (replicate 256 (CHR ''x'')) \<ge> MAX_VALUE_LEN" by (simp add: MAX_VALUE_LEN_def)
  show ?thesis
    using h value_length_gate [OF h, of "init_shared_data 0" 7 0 "[]" "[]"] by blast
qed

section \<open>Cleanup\<close>

text \<open>C9: \<open>cleanup\<close> returns 0 when \<open>shm_unlink\<close> succeeds and when it fails with
  \<open>ENOENT\<close>, returns -1 exactly when it fails with another error, and passes the table
  through unchanged.\<close>

theorem cleanup_result:
  "cleanup Unlinked s = (0, s) \<and>
   cleanup (UnlinkFailed ENOENT) s = (0, s) \<and>
   (fst (cleanup r s) = - 1) = (r \<noteq> Unlinked \<and> r \<noteq> UnlinkFailed ENOENT) \<and>
   (fst (cleanup r s) = 0) = (r = Unlinked \<or> r = UnlinkFailed ENOENT) \<and>
   snd (cleanup r s) = s"
  by (cases r) (auto simp: cleanup_def OK_def)

section \<open>Value buffers\<close>

lemma c_str_no_NUL: "NUL \<notin> set (c_str b)"
  unfolding c_str_def by (induction b) auto

lemma c_str_id: "NUL \<notin> set v \<Longrightarrow> c_str v = v"
  unfolding c_str_def by (induction v) auto

lemma c_str_idem: "c_str (c_str b) = c_str b"
  by (simp add: c_str_id c_str_no_NUL)

lemma c_str_append_NUL: "NUL \<notin> set u \<Longrightarrow> c_str (u @ NUL # w) = u"
  unfolding c_str_def by (induction u) auto

lemma c_str_length_le: "length (c_str b) \<le> length b"
  unfolding c_str_def by (rule length_takeWhile_le)

lemma c_str_length_less: "NUL \<in> set b \<Longrightarrow> length (c_str b) < length b"
  unfolding c_str_def by (induction b) auto

lemma c_str_prefix: "prefix (c_str v) v"
  unfolding c_str_def by (rule takeWhile_is_prefix)

lemma c_str_strict_prefix: "NUL \<in> set v \<Longrightarrow> strict_prefix (c_str v) v"
  using c_str_prefix[of v] c_str_no_NUL[of v] by (auto simp: strict_prefix_def)

lemma strncpy_length: "length (strncpy v n) = n"
  by (simp add: strncpy_def Let_def)

lemma write_value_eq:
  "length buf = MAX_VALUE_LEN \<Longrightarrow>
   write_value buf v = take 255 (c_str v) @ replicate (255 - length (take 255 (c_str v))) NUL @ [NUL]"
proof -
  assume len: "length buf = MAX_VALUE_LEN"
  define r where "r = drop 255 buf"
  have "length r = Suc 0" using len by (simp add: r_def MAX_VALUE_LEN_def)
  then obtain x where "r = [x]" by (cases r) auto
  then have d: "drop 255 buf = [x]" by (simp add: r_def)
  have l: "length (strncpy v 255) = 255" by (rule strncpy_length)
  have "write_value buf v = (strncpy v 255 @ [x])[255 := NUL]"
    using d by (simp add: write_value_def MAX_VALUE_LEN_def)
  also have "\<dots> = strncpy v 255 @ [NUL]"
    using l by (simp add: list_update_append)
  finally show ?thesis by (simp add: strncpy_def Let_def)
qed

lemma write_value_length:
  "length buf = MAX_VALUE_LEN \<Longrightarrow> length (write_value buf v) = MAX_VALUE_LEN"
  by (simp add: write_value_eq) (simp add: MAX_VALUE_LEN_def)

lemma write_value_NUL:
  "length buf = MAX_VALUE_LEN \<Longrightarrow> NUL \<in> set (write_value buf v)"
  by (simp add: write_value_eq)

lemma write_value_last:
  "length buf = MAX_VALUE_LEN \<Longrightarrow> write_value buf v ! (MAX_VALUE_LEN - 1) = NUL"
  by (simp add: write_value_eq MAX_VALUE_LEN_def nth_append)

lemma c_str_write_value:
  "length buf = MAX_VALUE_LEN \<Longrightarrow> c_str (write_value buf v) = take 255 (c_str v)"
proof -
  assume len: "length buf = MAX_VALUE_LEN"
  define t where "t = take 255 (c_str v)"
  have nn: "NUL \<notin> set t"
    using c_str_no_NUL[of v] by (auto simp: t_def dest: in_set_takeD)
  have "write_value buf v = t @ NUL # (replicate (255 - length t) NUL)"
    unfolding write_value_eq[OF len] t_def[symmetric]
    by (simp add: replicate_append_same)
  moreover have "c_str (t @ NUL # (replicate (255 - length t) NUL)) = t"
    using nn by (rule c_str_append_NUL)
  ultimately show ?thesis by (simp add: t_def)
qed

lemma c_str_write_value_short:
  "length buf = MAX_VALUE_LEN \<Longrightarrow> length v < MAX_VALUE_LEN \<Longrightarrow> c_str (write_value buf v) = c_str v"
  using c_str_length_le[of v] by (simp add: c_str_write_value MAX_VALUE_LEN_def)

section \<open>Counting slot states\<close>

lemma count_state_nonneg: "0 \<le> count_state st tbl"
  by (simp add: count_state_def)

lemma count_state_sum:
  "count_state RWLOCK_EMPTY tbl + count_state RWLOCK_OCCUPIED tbl + count_state RWLOCK_DELETED tbl
     = int (length tbl)"
proof (induction tbl)
  case Nil then show ?case by (simp add: count_state_def)
next
  case (Cons e tbl)
  then show ?case by (cases "entry_state e") (simp_all add: count_state_def)
qed

lemma count_state_Cons:
  "count_state st (e # tbl) = (if entry_state e = st then 1 else 0) + count_state st tbl"
  by (simp add: count_state_def)

lemma count_state_update:
  "i < length tbl \<Longrightarrow>
   count_state st (tbl[i := e]) =
     count_state st tbl - (if entry_state (tbl ! i) = st then 1 else 0)
       + (if entry_state e = st then 1 else 0)"
proof (induction tbl arbitrary: i)
  case Nil then show ?case by simp
next
  case (Cons a tbl)
  then show ?case by (cases i) (simp_all add: count_state_Cons)
qed

lemma count_state_zero_iff:
  "count_state st tbl = 0 \<longleftrightarrow> (\<forall>i<length tbl. entry_state (tbl ! i) \<noteq> st)"
proof
  assume "count_state st tbl = 0"
  then have "\<forall>e\<in>set tbl. entry_state e \<noteq> st" by (simp add: count_state_def filter_empty_conv)
  then show "\<forall>i<length tbl. entry_state (tbl ! i) \<noteq> st" using nth_mem by blast
next
  assume "\<forall>i<length tbl. entry_state (tbl ! i) \<noteq> st"
  then have "\<forall>e\<in>set tbl. entry_state e \<noteq> st" by (metis in_set_conv_nth)
  then show "count_state st tbl = 0" by (simp add: count_state_def filter_empty_conv)
qed

lemma count_state_less_ex:
  assumes "count_state RWLOCK_OCCUPIED tbl < int (length tbl)"
  shows "\<exists>i<length tbl. entry_state (tbl ! i) \<noteq> RWLOCK_OCCUPIED"
proof (rule ccontr)
  assume "\<not> ?thesis"
  then have "\<forall>e\<in>set tbl. entry_state e = RWLOCK_OCCUPIED" by (auto simp: in_set_conv_nth)
  then have "filter (\<lambda>e. entry_state e = RWLOCK_OCCUPIED) tbl = tbl" by (simp add: filter_True)
  with assms show False by (simp add: count_state_def)
qed

lemma count_state_map_clear:
  "count_state st (map (\<lambda>e. e\<lparr>entry_state := RWLOCK_EMPTY\<rparr>) tbl) =
     (if st = RWLOCK_EMPTY then int (length tbl) else 0)"
  by (induction tbl) (auto simp: count_state_def)

section \<open>Probing under the table invariants\<close>

lemma probe_of_lt: "probe_of seed k t < 2048"
  unfolding probe_of_def by (rule probe_seq_lt[OF hash_lt])

lemma probe_of_inj: "a < 2048 \<Longrightarrow> b < 2048 \<Longrightarrow> probe_of seed k a = probe_of seed k b \<Longrightarrow> a = b"
  unfolding probe_of_def by (rule probe_seq_inj[OF hash_lt hash2_odd])

lemma probe_of_surj: "i < 2048 \<Longrightarrow> \<exists>t<2048. probe_of seed k t = i"
  unfolding probe_of_def by (rule probe_seq_surj[OF hash_lt hash2_odd])

lemma inv_length: "table_inv s \<Longrightarrow> length (hash_table s) = 2048"
  by (simp add: table_inv_def RWLOCK_HASH_TABLE_SIZE_def)

lemma inv_current: "table_inv s \<Longrightarrow> current_count s = count_state RWLOCK_OCCUPIED (hash_table s)"
  by (simp add: table_inv_def)

lemma inv_deleted: "table_inv s \<Longrightarrow> deleted_count s = count_state RWLOCK_DELETED (hash_table s)"
  by (simp add: table_inv_def)

lemma inv_reach:
  "table_inv s \<Longrightarrow> i < 2048 \<Longrightarrow> key_at (hash_table s) k i \<Longrightarrow>
   slot_reachable (hash_seed s) (hash_table s) k i"
  by (auto simp: table_inv_def RWLOCK_HASH_TABLE_SIZE_def key_at_def)

lemma inv_unique:
  "table_inv s \<Longrightarrow> i < 2048 \<Longrightarrow> j < 2048 \<Longrightarrow> key_at (hash_table s) k i \<Longrightarrow>
   key_at (hash_table s) k j \<Longrightarrow> i = j"
  unfolding table_inv_def RWLOCK_HASH_TABLE_SIZE_def key_at_def by blast

lemma inv_value:
  "table_inv s \<Longrightarrow> i < 2048 \<Longrightarrow>
   length (entry_value (hash_table s ! i)) = MAX_VALUE_LEN \<and> NUL \<in> set (entry_value (hash_table s ! i))"
  by (simp add: table_inv_def RWLOCK_HASH_TABLE_SIZE_def)

lemma slot_reachableD:
  "slot_reachable seed tbl k i \<Longrightarrow>
   \<exists>t<2048. probe_of seed k t = i \<and> (\<forall>u<t. entry_state (tbl ! probe_of seed k u) \<noteq> RWLOCK_EMPTY)"
  by (simp add: slot_reachable_def RWLOCK_HASH_TABLE_SIZE_def)

lemma slot_reachableI:
  "t < 2048 \<Longrightarrow> probe_of seed k t = i \<Longrightarrow>
   (\<forall>u<t. entry_state (tbl ! probe_of seed k u) \<noteq> RWLOCK_EMPTY) \<Longrightarrow> slot_reachable seed tbl k i"
  unfolding slot_reachable_def RWLOCK_HASH_TABLE_SIZE_def by blast

lemma findEntry_present:
  assumes inv: "table_inv s" and i: "i < 2048" and k: "key_at (hash_table s) k i"
  shows "findEntry s k (hash (hash_seed s) k) = Some i"
proof -
  let ?tbl = "hash_table s" and ?seed = "hash_seed s"
  from slot_reachableD[OF inv_reach[OF inv i k]] obtain t where t: "t < 2048"
    "probe_of ?seed k t = i" "\<forall>u<t. entry_state (?tbl ! probe_of ?seed k u) \<noteq> RWLOCK_EMPTY"
    by blast
  have nk: "\<not> key_at ?tbl k (probe_of ?seed k u)" if "u < t" for u
  proof
    assume "key_at ?tbl k (probe_of ?seed k u)"
    then have "probe_of ?seed k u = i" using inv_unique[OF inv probe_of_lt i _ k] by blast
    then have "u = t" using probe_of_inj[of u t ?seed k] t that by simp
    with that show False by simp
  qed
  have "findEntry_loop ?tbl k (hash2 ?seed k) (probe_seq (unat (hash ?seed k)) (hash2 ?seed k) 0) 0
          = Some (probe_seq (unat (hash ?seed k)) (hash2 ?seed k) t)"
    by (rule findEntry_loop_found) (use t k nk in \<open>auto simp: probe_of_def\<close>)
  then show ?thesis using t by (simp add: findEntry_def probe_of_def)
qed

lemma findEntry_SomeD:
  assumes "findEntry s k (hash (hash_seed s) k) = Some i"
  shows "i < 2048 \<and> key_at (hash_table s) k i"
proof -
  have "findEntry_loop (hash_table s) k (hash2 (hash_seed s) k)
          (probe_seq (unat (hash (hash_seed s) k)) (hash2 (hash_seed s) k) 0) 0 = Some i"
    using assms by (simp add: findEntry_def)
  from findEntry_loop_Some[OF this] show ?thesis
    using probe_of_lt[of "hash_seed s" k] by (auto simp: probe_of_def)
qed

lemma findEntry_absent:
  assumes "\<forall>i<2048. \<not> key_at (hash_table s) k i"
  shows "findEntry s k (hash (hash_seed s) k) = None"
  using assms findEntry_SomeD[of s k] by (cases "findEntry s k (hash (hash_seed s) k)") auto

lemma findEntry_None_iff:
  assumes "table_inv s"
  shows "findEntry s k (hash (hash_seed s) k) = None \<longleftrightarrow> (\<forall>i<2048. \<not> key_at (hash_table s) k i)"
  using findEntry_present[OF assms] findEntry_absent[of s k] by fastforce

lemma findEmptySlot_SomeD:
  assumes inv: "table_inv s" and f: "findEmptySlot s k (hash (hash_seed s) k) = Some p"
  shows "p < 2048 \<and> entry_state (hash_table s ! p) \<noteq> RWLOCK_OCCUPIED \<and>
         slot_reachable (hash_seed s) (hash_table s) k p \<and>
         (\<forall>i<2048. \<not> key_at (hash_table s) k i)"
proof -
  let ?tbl = "hash_table s" and ?seed = "hash_seed s"
  let ?h = "unat (hash ?seed k)" and ?h2 = "hash2 ?seed k"
  have f': "findEmptySlot_loop ?tbl k ?h2 (probe_seq ?h ?h2 0) None 0 = Some p"
    using f by (simp add: findEmptySlot_def)
  from findEmptySlot_loop_Some[OF f'] obtain t where t: "t < 2048" "p = probe_seq ?h ?h2 t"
    "entry_state (?tbl ! p) \<noteq> RWLOCK_OCCUPIED"
    "\<forall>u<t. entry_state (?tbl ! probe_seq ?h ?h2 u) \<noteq> RWLOCK_EMPTY"
    by auto
  have a: "\<forall>t<2048. (\<forall>u<t. entry_state (?tbl ! probe_seq ?h ?h2 u) \<noteq> RWLOCK_EMPTY) \<longrightarrow>
             \<not> key_at ?tbl k (probe_seq ?h ?h2 t)"
    by (rule findEmptySlot_loop_Some_absent[OF f']) simp_all
  have abs: "\<not> key_at ?tbl k i" if i: "i < 2048" for i
  proof
    assume k: "key_at ?tbl k i"
    from slot_reachableD[OF inv_reach[OF inv i k]] a show False
      using k by (auto simp: probe_of_def)
  qed
  have "slot_reachable ?seed ?tbl k p"
    by (rule slot_reachableI[OF t(1)]) (use t in \<open>auto simp: probe_of_def\<close>)
  moreover have "p < 2048" using t(2) probe_of_lt[of ?seed k t] by (simp add: probe_of_def)
  ultimately show ?thesis using t(3) abs by blast
qed

lemma findEmptySlot_dup:
  assumes inv: "table_inv s" and i: "i < 2048" and k: "key_at (hash_table s) k i"
  shows "findEmptySlot s k (hash (hash_seed s) k) = None"
proof -
  from slot_reachableD[OF inv_reach[OF inv i k]] obtain t where t: "t < 2048"
    "probe_of (hash_seed s) k t = i"
    "\<forall>u<t. entry_state (hash_table s ! probe_of (hash_seed s) k u) \<noteq> RWLOCK_EMPTY"
    by blast
  have "findEmptySlot_loop (hash_table s) k (hash2 (hash_seed s) k)
          (probe_seq (unat (hash (hash_seed s) k)) (hash2 (hash_seed s) k) 0) None 0 = None"
    by (rule findEmptySlot_loop_dup[of t]) (use t k in \<open>auto simp: probe_of_def\<close>)
  then show ?thesis by (simp add: findEmptySlot_def)
qed

lemma findEmptySlot_exists:
  assumes abs: "\<forall>i<2048. \<not> key_at (hash_table s) k i"
    and free: "i < 2048" "entry_state (hash_table s ! i) \<noteq> RWLOCK_OCCUPIED"
  shows "findEmptySlot s k (hash (hash_seed s) k) \<noteq> None"
proof -
  from probe_of_surj[OF free(1)] obtain t where t: "t < 2048" "probe_of (hash_seed s) k t = i"
    by blast
  have "findEmptySlot_loop (hash_table s) k (hash2 (hash_seed s) k)
          (probe_seq (unat (hash (hash_seed s) k)) (hash2 (hash_seed s) k) 0) None 0 \<noteq> None"
  proof (rule findEmptySlot_loop_exists)
    show "\<forall>u. 0 \<le> u \<and> u < 2048 \<longrightarrow>
            \<not> key_at (hash_table s) k (probe_seq (unat (hash (hash_seed s) k)) (hash2 (hash_seed s) k) u)"
      using abs probe_of_lt[of "hash_seed s" k] by (simp add: probe_of_def)
    show "None \<noteq> None \<or> (\<exists>t. 0 \<le> t \<and> t < 2048 \<and>
            entry_state (hash_table s ! probe_seq (unat (hash (hash_seed s) k)) (hash2 (hash_seed s) k) t)
              \<noteq> RWLOCK_OCCUPIED)"
      using t free by (auto simp: probe_of_def)
  qed
  then show ?thesis by (simp add: findEmptySlot_def)
qed

section \<open>Writing one slot\<close>

lemma slot_reachable_mono:
  assumes "slot_reachable seed tbl k i"
    and "\<forall>j<2048. entry_state (tbl' ! j) = RWLOCK_EMPTY \<longrightarrow> entry_state (tbl ! j) = RWLOCK_EMPTY"
  shows "slot_reachable seed tbl' k i"
proof -
  from slot_reachableD[OF assms(1)] obtain t where t: "t < 2048" "probe_of seed k t = i"
    "\<forall>u<t. entry_state (tbl ! probe_of seed k u) \<noteq> RWLOCK_EMPTY" by blast
  have "\<forall>u<t. entry_state (tbl' ! probe_of seed k u) \<noteq> RWLOCK_EMPTY"
    using t(3) assms(2) probe_of_lt[of seed k] by blast
  with t show ?thesis by (intro slot_reachableI[of t]) auto
qed

lemma table_inv_update:
  assumes inv: "table_inv s" and p: "p < 2048"
    and tbl': "hash_table s' = (hash_table s)[p := e]"
    and seed: "hash_seed s' = hash_seed s"
    and ne: "entry_state e \<noteq> RWLOCK_EMPTY"
    and occ: "entry_state e = RWLOCK_OCCUPIED \<Longrightarrow>
                slot_reachable (hash_seed s) (hash_table s) (entry_key e) p \<and>
                (\<forall>i<2048. i \<noteq> p \<longrightarrow> \<not> key_at (hash_table s) (entry_key e) i)"
    and val: "length (entry_value e) = MAX_VALUE_LEN" "NUL \<in> set (entry_value e)"
    and cc: "current_count s' = current_count s
               - (if entry_state (hash_table s ! p) = RWLOCK_OCCUPIED then 1 else 0)
               + (if entry_state e = RWLOCK_OCCUPIED then 1 else 0)"
    and dc: "deleted_count s' = deleted_count s
               - (if entry_state (hash_table s ! p) = RWLOCK_DELETED then 1 else 0)
               + (if entry_state e = RWLOCK_DELETED then 1 else 0)"
  shows "table_inv s'"
proof -
  let ?tbl = "hash_table s" and ?tbl' = "hash_table s'"
  have len: "length ?tbl = 2048" by (rule inv_length[OF inv])
  have nth': "?tbl' ! i = (if i = p then e else ?tbl ! i)" if "i < 2048" for i
    using that len p by (simp add: tbl')
  have mono: "\<forall>j<2048. entry_state (?tbl' ! j) = RWLOCK_EMPTY \<longrightarrow> entry_state (?tbl ! j) = RWLOCK_EMPTY"
    using nth' ne by auto
  have c1: "length ?tbl' = RWLOCK_HASH_TABLE_SIZE"
    using len by (simp add: tbl' RWLOCK_HASH_TABLE_SIZE_def)
  have c2: "current_count s' = count_state RWLOCK_OCCUPIED ?tbl'"
    using len p by (simp add: cc tbl' count_state_update inv_current[OF inv])
  have c3: "deleted_count s' = count_state RWLOCK_DELETED ?tbl'"
    using len p by (simp add: dc tbl' count_state_update inv_deleted[OF inv])
  have c4: "slot_reachable (hash_seed s') ?tbl' (entry_key (?tbl' ! i)) i"
    if i: "i < 2048" and o: "entry_state (?tbl' ! i) = RWLOCK_OCCUPIED" for i
  proof (cases "i = p")
    case True
    with o i have "entry_state e = RWLOCK_OCCUPIED" by (simp add: nth')
    from occ[OF this] have "slot_reachable (hash_seed s) ?tbl (entry_key e) p" by simp
    from slot_reachable_mono[OF this mono] show ?thesis using True i by (simp add: nth' seed)
  next
    case False
    with o i have "key_at ?tbl (entry_key (?tbl ! i)) i" by (simp add: nth' key_at_def)
    from slot_reachable_mono[OF inv_reach[OF inv i this] mono] show ?thesis
      using False i by (simp add: nth' seed)
  qed
  have c5: "i = j" if i: "i < 2048" and j: "j < 2048"
    and o: "entry_state (?tbl' ! i) = RWLOCK_OCCUPIED" "entry_state (?tbl' ! j) = RWLOCK_OCCUPIED"
    and eq: "entry_key (?tbl' ! i) = entry_key (?tbl' ! j)" for i j
  proof (cases "i = p"; cases "j = p")
    assume "i = p" "j = p" then show ?thesis by simp
  next
    assume a: "i = p" "j \<noteq> p"
    with o i have eo: "entry_state e = RWLOCK_OCCUPIED" by (simp add: nth')
    from a o eq i j have "key_at ?tbl (entry_key e) j" by (simp add: nth' key_at_def)
    with occ[OF eo] a j show ?thesis by blast
  next
    assume a: "i \<noteq> p" "j = p"
    with o j have eo: "entry_state e = RWLOCK_OCCUPIED" by (simp add: nth')
    from a o eq i j have "key_at ?tbl (entry_key e) i" by (simp add: nth' key_at_def)
    with occ[OF eo] a i show ?thesis by blast
  next
    assume a: "i \<noteq> p" "j \<noteq> p"
    with o eq i j have "key_at ?tbl (entry_key (?tbl ! i)) i" "key_at ?tbl (entry_key (?tbl ! i)) j"
      by (simp_all add: nth' key_at_def)
    then show ?thesis by (rule inv_unique[OF inv i j])
  qed
  have c6: "length (entry_value (?tbl' ! i)) = MAX_VALUE_LEN \<and> NUL \<in> set (entry_value (?tbl' ! i))"
    if i: "i < 2048" for i
    using inv_value[OF inv i] val i by (simp add: nth')
  show ?thesis
    unfolding table_inv_def using c1 c2 c3 c4 c5 c6
    by (simp add: RWLOCK_HASH_TABLE_SIZE_def)
qed

section \<open>The logical content\<close>

lemma logical_map_None_iff:
  "length (hash_table s) = 2048 \<Longrightarrow>
   logical_map s k = None \<longleftrightarrow> (\<forall>i<2048. \<not> key_at (hash_table s) k i)"
  by (auto simp: logical_map_def find_None_iff key_at_def in_set_conv_nth)

lemma logical_map_key_at:
  assumes inv: "table_inv s" and i: "i < 2048" and k: "key_at (hash_table s) k i"
  shows "logical_map s k = Some (c_str (entry_value (hash_table s ! i)))"
proof -
  let ?P = "\<lambda>e. entry_state e = RWLOCK_OCCUPIED \<and> entry_key e = k"
  have len: "length (hash_table s) = 2048" by (rule inv_length[OF inv])
  have "find ?P (hash_table s) \<noteq> None"
    using i k len by (auto simp: find_None_iff key_at_def in_set_conv_nth)
  then obtain x where x: "find ?P (hash_table s) = Some x" by blast
  then obtain j where j: "j < 2048" "?P (hash_table s ! j)" "x = hash_table s ! j"
    using len by (auto simp: find_Some_iff)
  then have "key_at (hash_table s) k j" by (simp add: key_at_def)
  then have "j = i" by (rule inv_unique[OF inv j(1) i _ k])
  with x j show ?thesis by (simp add: logical_map_def)
qed

lemma logical_map_SomeD:
  assumes inv: "table_inv s" and m: "logical_map s k = Some v"
  shows "\<exists>i<2048. key_at (hash_table s) k i \<and> v = c_str (entry_value (hash_table s ! i))"
proof -
  have "logical_map s k \<noteq> None" using m by simp
  then obtain i where i: "i < 2048" "key_at (hash_table s) k i"
    using logical_map_None_iff[OF inv_length[OF inv], of k] by auto
  with logical_map_key_at[OF inv i] m show ?thesis by auto
qed

lemma getRsc_logical:
  assumes inv: "table_inv s"
  shows "getRsc s k = (case logical_map s k of None \<Rightarrow> [] | Some v \<Rightarrow> v)"
proof (cases "logical_map s k")
  case None
  then have "\<forall>i<2048. \<not> key_at (hash_table s) k i"
    using logical_map_None_iff[OF inv_length[OF inv]] by blast
  then show ?thesis using None by (simp add: getRsc_def findEntry_absent)
next
  case (Some v)
  from logical_map_SomeD[OF inv Some] obtain i where i: "i < 2048" "key_at (hash_table s) k i"
    "v = c_str (entry_value (hash_table s ! i))" by blast
  then show ?thesis using Some by (simp add: getRsc_def findEntry_present[OF inv i(1,2)])
qed

lemma isContain_logical:
  assumes inv: "table_inv s"
  shows "isContain s k \<longleftrightarrow> logical_map s k \<noteq> None"
  using findEntry_None_iff[OF inv, of k] logical_map_None_iff[OF inv_length[OF inv], of k]
  by (simp add: isContain_def)

lemma logical_map_update:
  assumes inv: "table_inv s" and inv': "table_inv s'" and p: "p < 2048"
    and tbl': "hash_table s' = (hash_table s)[p := e]"
  shows "logical_map s' k =
           (if entry_state e = RWLOCK_OCCUPIED \<and> entry_key e = k then Some (c_str (entry_value e))
            else if key_at (hash_table s) k p then None
            else logical_map s k)"
proof -
  let ?tbl = "hash_table s" and ?tbl' = "hash_table s'"
  have len: "length ?tbl = 2048" by (rule inv_length[OF inv])
  have len': "length ?tbl' = 2048" by (rule inv_length[OF inv'])
  have nth': "?tbl' ! i = (if i = p then e else ?tbl ! i)" if "i < 2048" for i
    using that len p by (simp add: tbl')
  show ?thesis
  proof (cases "entry_state e = RWLOCK_OCCUPIED \<and> entry_key e = k")
    case True
    then have "key_at ?tbl' k p" using p by (simp add: key_at_def nth')
    from logical_map_key_at[OF inv' p this] show ?thesis using True p by (simp add: nth')
  next
    case ne: False
    show ?thesis
    proof (cases "key_at ?tbl k p")
      case True
      have "\<not> key_at ?tbl' k i" if i: "i < 2048" for i
      proof (cases "i = p")
        case True with ne i show ?thesis by (auto simp: key_at_def nth')
      next
        case False
        then show ?thesis using inv_unique[OF inv i p _ True] i by (auto simp: key_at_def nth')
      qed
      then have "logical_map s' k = None" by (simp add: logical_map_None_iff[OF len'])
      then show ?thesis using ne True by simp
    next
      case False
      have same: "key_at ?tbl' k i \<longleftrightarrow> key_at ?tbl k i" if i: "i < 2048" for i
        using ne False i by (cases "i = p") (auto simp: key_at_def nth')
      show ?thesis
      proof (cases "logical_map s k")
        case None
        then have "\<forall>i<2048. \<not> key_at ?tbl k i" by (simp add: logical_map_None_iff[OF len])
        then have "\<forall>i<2048. \<not> key_at ?tbl' k i" using same by simp
        then have "logical_map s' k = None" by (simp add: logical_map_None_iff[OF len'])
        then show ?thesis using ne False None by simp
      next
        case (Some v)
        from logical_map_SomeD[OF inv Some] obtain i where i: "i < 2048" "key_at ?tbl k i"
          "v = c_str (entry_value (?tbl ! i))" by blast
        with False have ip: "i \<noteq> p" by auto
        have "key_at ?tbl' k i" using same i by simp
        from logical_map_key_at[OF inv' i(1) this] show ?thesis
          using ne False Some i ip by (auto simp add: nth')
      qed
    qed
  qed
qed

section \<open>Effect of the slot writes of the public operations\<close>

lemma overwrite_value_spec:
  assumes inv: "table_inv s" and p: "p < 2048" and k: "key_at (hash_table s) k p"
  shows "table_inv (overwrite_value s p v)"
    and "logical_map (overwrite_value s p v) = (logical_map s)(k \<mapsto> take 255 (c_str v))"
    and "current_count (overwrite_value s p v) = current_count s"
    and "deleted_count (overwrite_value s p v) = deleted_count s"
    and "hash_seed (overwrite_value s p v) = hash_seed s"
proof -
  let ?old = "hash_table s ! p"
  let ?e = "?old\<lparr>entry_value := write_value (entry_value ?old) v\<rparr>"
  let ?s' = "overwrite_value s p v"
  have tbl': "hash_table ?s' = (hash_table s)[p := ?e]" by (simp add: overwrite_value_def)
  have old: "entry_state ?old = RWLOCK_OCCUPIED" "entry_key ?old = k"
    using k by (simp_all add: key_at_def)
  have len: "length (entry_value ?old) = MAX_VALUE_LEN" using inv_value[OF inv p] by simp
  show inv': "table_inv ?s'"
  proof (rule table_inv_update[OF inv p tbl'])
    show "hash_seed ?s' = hash_seed s" by (simp add: overwrite_value_def)
    show "entry_state ?e \<noteq> RWLOCK_EMPTY" using old by simp
    show "slot_reachable (hash_seed s) (hash_table s) (entry_key ?e) p \<and>
          (\<forall>i<2048. i \<noteq> p \<longrightarrow> \<not> key_at (hash_table s) (entry_key ?e) i)"
      using inv_reach[OF inv p k] inv_unique[OF inv _ p _ k] old by auto
    show "length (entry_value ?e) = MAX_VALUE_LEN" using len by (simp add: write_value_length)
    show "NUL \<in> set (entry_value ?e)" using len by (simp add: write_value_NUL)
    show "current_count ?s' = current_count s
            - (if entry_state ?old = RWLOCK_OCCUPIED then 1 else 0)
            + (if entry_state ?e = RWLOCK_OCCUPIED then 1 else 0)"
      using old by (simp add: overwrite_value_def)
    show "deleted_count ?s' = deleted_count s
            - (if entry_state ?old = RWLOCK_DELETED then 1 else 0)
            + (if entry_state ?e = RWLOCK_DELETED then 1 else 0)"
      using old by (simp add: overwrite_value_def)
  qed
  show "logical_map ?s' = (logical_map s)(k \<mapsto> take 255 (c_str v))"
  proof
    fix k'
    show "logical_map ?s' k' = ((logical_map s)(k \<mapsto> take 255 (c_str v))) k'"
      using old len k by (auto simp: logical_map_update[OF inv inv' p tbl'] key_at_def c_str_write_value)
  qed
  show "current_count ?s' = current_count s" "deleted_count ?s' = deleted_count s"
    "hash_seed ?s' = hash_seed s"
    by (simp_all add: overwrite_value_def)
qed

lemma insert_spec:
  fixes v :: string
  assumes inv: "table_inv s" and f: "findEmptySlot s k (hash (hash_seed s) k) = Some p"
  defines "s2 \<equiv> (if entry_state (hash_table s ! p) = RWLOCK_DELETED
                  then s\<lparr>deleted_count := deleted_count s - 1\<rparr> else s)"
  defines "s' \<equiv> store_entry s2 p k v (hash (hash_seed s) k)"
  shows "table_inv s'"
    and "logical_map s' = (logical_map s)(k \<mapsto> take 255 (c_str v))"
    and "logical_map s k = None"
    and "current_count s' = current_count s + 1"
    and "deleted_count s' = deleted_count s
           - (if entry_state (hash_table s ! p) = RWLOCK_DELETED then 1 else 0)"
    and "hash_seed s' = hash_seed s"
proof -
  from findEmptySlot_SomeD[OF inv f] have p: "p < 2048"
    and free: "entry_state (hash_table s ! p) \<noteq> RWLOCK_OCCUPIED"
    and reach: "slot_reachable (hash_seed s) (hash_table s) k p"
    and abs: "\<forall>i<2048. \<not> key_at (hash_table s) k i" by simp_all
  let ?old = "hash_table s ! p"
  let ?e = "\<lparr>entry_key = k, entry_value = write_value (entry_value ?old) v,
             entry_state = RWLOCK_OCCUPIED, entry_hash_value = hash (hash_seed s) k\<rparr>"
  have tbl': "hash_table s' = (hash_table s)[p := ?e]"
    by (simp add: s'_def s2_def store_entry_def)
  have len: "length (entry_value ?old) = MAX_VALUE_LEN" using inv_value[OF inv p] by simp
  show inv': "table_inv s'"
  proof (rule table_inv_update[OF inv p tbl'])
    show "hash_seed s' = hash_seed s" by (simp add: s'_def s2_def store_entry_def)
    show "entry_state ?e \<noteq> RWLOCK_EMPTY" by simp
    show "slot_reachable (hash_seed s) (hash_table s) (entry_key ?e) p \<and>
          (\<forall>i<2048. i \<noteq> p \<longrightarrow> \<not> key_at (hash_table s) (entry_key ?e) i)"
      using reach abs by simp
    show "length (entry_value ?e) = MAX_VALUE_LEN" using len by (simp add: write_value_length)
    show "NUL \<in> set (entry_value ?e)" using len by (simp add: write_value_NUL)
    show "current_count s' = current_count s
            - (if entry_state ?old = RWLOCK_OCCUPIED then 1 else 0)
            + (if entry_state ?e = RWLOCK_OCCUPIED then 1 else 0)"
      using free by (simp add: s'_def s2_def store_entry_def)
    show "deleted_count s' = deleted_count s
            - (if entry_state ?old = RWLOCK_DELETED then 1 else 0)
            + (if entry_state ?e = RWLOCK_DELETED then 1 else 0)"
      by (simp add: s'_def s2_def store_entry_def)
  qed
  show "logical_map s' = (logical_map s)(k \<mapsto> take 255 (c_str v))"
  proof
    fix k'
    show "logical_map s' k' = ((logical_map s)(k \<mapsto> take 255 (c_str v))) k'"
      using free len by (auto simp: logical_map_update[OF inv inv' p tbl'] key_at_def c_str_write_value)
  qed
  show "logical_map s k = None" using abs by (simp add: logical_map_None_iff[OF inv_length[OF inv]])
  show "current_count s' = current_count s + 1"
    "deleted_count s' = deleted_count s
           - (if entry_state (hash_table s ! p) = RWLOCK_DELETED then 1 else 0)"
    "hash_seed s' = hash_seed s"
    by (simp_all add: s'_def s2_def store_entry_def)
qed

lemma removeRsc_present:
  assumes inv: "table_inv s" and p: "p < 2048" and k: "key_at (hash_table s) k p"
  defines "s' \<equiv> s\<lparr>hash_table := (hash_table s)[p := (hash_table s ! p)\<lparr>entry_state := RWLOCK_DELETED\<rparr>],
                    current_count := current_count s - 1,
                    deleted_count := deleted_count s + 1\<rparr>"
  shows "removeRsc s k = (OK, s')"
    and "table_inv s'"
    and "logical_map s' = (logical_map s)(k := None)"
proof -
  let ?old = "hash_table s ! p"
  let ?e = "?old\<lparr>entry_state := RWLOCK_DELETED\<rparr>"
  have tbl': "hash_table s' = (hash_table s)[p := ?e]" by (simp add: s'_def)
  have old: "entry_state ?old = RWLOCK_OCCUPIED" "entry_key ?old = k"
    using k by (simp_all add: key_at_def)
  show "removeRsc s k = (OK, s')"
    by (simp add: removeRsc_def findEntry_present[OF inv p k] s'_def)
  show inv': "table_inv s'"
  proof (rule table_inv_update[OF inv p tbl'])
    show "hash_seed s' = hash_seed s" by (simp add: s'_def)
    show "entry_state ?e \<noteq> RWLOCK_EMPTY" by simp
    show "slot_reachable (hash_seed s) (hash_table s) (entry_key ?e) p \<and>
          (\<forall>i<2048. i \<noteq> p \<longrightarrow> \<not> key_at (hash_table s) (entry_key ?e) i)"
      if "entry_state ?e = RWLOCK_OCCUPIED" using that by simp
    show "length (entry_value ?e) = MAX_VALUE_LEN" "NUL \<in> set (entry_value ?e)"
      using inv_value[OF inv p] by simp_all
    show "current_count s' = current_count s
            - (if entry_state ?old = RWLOCK_OCCUPIED then 1 else 0)
            + (if entry_state ?e = RWLOCK_OCCUPIED then 1 else 0)"
      using old by (simp add: s'_def)
    show "deleted_count s' = deleted_count s
            - (if entry_state ?old = RWLOCK_DELETED then 1 else 0)
            + (if entry_state ?e = RWLOCK_DELETED then 1 else 0)"
      using old by (simp add: s'_def)
  qed
  show "logical_map s' = (logical_map s)(k := None)"
  proof
    fix k'
    show "logical_map s' k' = ((logical_map s)(k := None)) k'"
      using old k by (auto simp: logical_map_update[OF inv inv' p tbl'] key_at_def)
  qed
qed

lemma removeRsc_absent:
  assumes "\<forall>i<2048. \<not> key_at (hash_table s) k i"
  shows "removeRsc s k = (NOT_FOUND, s)"
  by (simp add: removeRsc_def findEntry_absent[OF assms])

section \<open>Clearing the table\<close>

lemma clear_states_spec:
  assumes inv: "table_inv s"
  shows "table_inv (clear_states s)"
    and "logical_map (clear_states s) = Map.empty"
    and "current_count (clear_states s) = 0"
    and "deleted_count (clear_states s) = 0"
    and "hash_seed (clear_states s) = hash_seed s"
proof -
  let ?tbl' = "map (\<lambda>e. e\<lparr>entry_state := RWLOCK_EMPTY\<rparr>) (hash_table s)"
  have len: "length (hash_table s) = 2048" by (rule inv_length[OF inv])
  have tbl': "hash_table (clear_states s) = ?tbl'" by (simp add: clear_states_def)
  have st: "entry_state (?tbl' ! i) = RWLOCK_EMPTY" if "i < 2048" for i
    using that len by simp
  have v: "entry_value (?tbl' ! i) = entry_value (hash_table s ! i)" if "i < 2048" for i
    using that len by simp
  show "table_inv (clear_states s)"
    unfolding table_inv_def tbl'
    using len st v inv_value[OF inv]
    by (simp add: RWLOCK_HASH_TABLE_SIZE_def clear_states_def count_state_map_clear)
  have "\<forall>i<2048. \<not> key_at (hash_table (clear_states s)) k i" for k
    using st by (simp add: tbl' key_at_def)
  then show "logical_map (clear_states s) = Map.empty"
    using len by (intro ext) (simp add: logical_map_None_iff tbl')
  show "current_count (clear_states s) = 0" "deleted_count (clear_states s) = 0"
    "hash_seed (clear_states s) = hash_seed s"
    by (simp_all add: clear_states_def)
qed

section \<open>The snapshot of the occupied slots\<close>

lemma map_assign_set:
  "k \<notin> fst ` set m \<Longrightarrow> set (map_assign m k v) = insert (k, v) (set m)"
  by (induction m) (auto split: if_splits)

lemma map_assign_length:
  "k \<notin> fst ` set m \<Longrightarrow> length (map_assign m k v) = Suc (length m)"
  by (induction m) (auto split: if_splits)

lemma map_assign_distinct:
  "k \<notin> fst ` set m \<Longrightarrow> distinct (map fst m) \<Longrightarrow> distinct (map fst (map_assign m k v))"
proof (induction m)
  case Nil then show ?case by simp
next
  case (Cons a m)
  obtain k' v' where a: "a = (k', v')" by (cases a)
  have "fst ` set (map_assign m k v) = insert k (fst ` set m)"
    using Cons.prems(1) by (simp add: map_assign_set)
  then show ?case using Cons a by auto
qed

lemma collect_occupied_spec:
  assumes "distinct (map entry_key (filter (\<lambda>e. entry_state e = RWLOCK_OCCUPIED) es))"
    and "distinct (map fst acc)"
    and "\<forall>e\<in>set es. entry_state e = RWLOCK_OCCUPIED \<longrightarrow> entry_key e \<notin> fst ` set acc"
  shows "distinct (map fst (collect_occupied es acc)) \<and>
         set (collect_occupied es acc) =
           set acc \<union> {(entry_key e, c_str (entry_value e)) | e.
                         e \<in> set es \<and> entry_state e = RWLOCK_OCCUPIED} \<and>
         length (collect_occupied es acc) =
           length acc + length (filter (\<lambda>e. entry_state e = RWLOCK_OCCUPIED) es)"
  using assms
proof (induction es arbitrary: acc)
  case Nil then show ?case by simp
next
  case (Cons e es)
  show ?case
  proof (cases "entry_state e = RWLOCK_OCCUPIED")
    case False
    then show ?thesis using Cons.IH[of acc] Cons.prems by auto
  next
    case True
    let ?acc' = "map_assign acc (entry_key e) (c_str (entry_value e))"
    have fresh: "entry_key e \<notin> fst ` set acc" using Cons.prems(3) True by simp
    have d: "distinct (map fst ?acc')" using fresh Cons.prems(2) by (rule map_assign_distinct)
    have s: "set ?acc' = insert (entry_key e, c_str (entry_value e)) (set acc)"
      using fresh by (rule map_assign_set)
    have l: "length ?acc' = Suc (length acc)" using fresh by (rule map_assign_length)
    have d2: "distinct (map entry_key (filter (\<lambda>e. entry_state e = RWLOCK_OCCUPIED) es))"
      using Cons.prems(1) True by simp
    have f2: "\<forall>x\<in>set es. entry_state x = RWLOCK_OCCUPIED \<longrightarrow> entry_key x \<notin> fst ` set ?acc'"
    proof (intro ballI impI)
      fix x assume x: "x \<in> set es" "entry_state x = RWLOCK_OCCUPIED"
      then have "entry_key x \<in> entry_key ` set (filter (\<lambda>e. entry_state e = RWLOCK_OCCUPIED) es)"
        by simp
      moreover have "entry_key e \<notin> entry_key ` set (filter (\<lambda>e. entry_state e = RWLOCK_OCCUPIED) es)"
        using Cons.prems(1) True by simp
      ultimately have "entry_key x \<noteq> entry_key e" by metis
      moreover have "entry_key x \<notin> fst ` set acc" using Cons.prems(3) x by simp
      ultimately show "entry_key x \<notin> fst ` set ?acc'" by (simp add: s)
    qed
    from Cons.IH[OF d2 d f2] show ?thesis using True by (auto simp: s l)
  qed
qed

lemma distinct_map_filter_nth:
  assumes "\<forall>i<length xs. \<forall>j<length xs. P (xs ! i) \<and> P (xs ! j) \<and> f (xs ! i) = f (xs ! j) \<longrightarrow> i = j"
  shows "distinct (map f (filter P xs))"
  using assms
proof (induction xs)
  case Nil then show ?case by simp
next
  case (Cons x xs)
  have tl: "\<forall>i<length xs. \<forall>j<length xs. P (xs ! i) \<and> P (xs ! j) \<and> f (xs ! i) = f (xs ! j) \<longrightarrow> i = j"
  proof (intro allI impI)
    fix i j assume "i < length xs" "j < length xs" "P (xs ! i) \<and> P (xs ! j) \<and> f (xs ! i) = f (xs ! j)"
    then have "Suc i = Suc j" using Cons.prems[rule_format, of "Suc i" "Suc j"] by simp
    then show "i = j" by simp
  qed
  have hd: "f x \<notin> f ` set (filter P xs)" if "P x"
  proof
    assume "f x \<in> f ` set (filter P xs)"
    then obtain y where y: "y \<in> set xs" "P y" "f y = f x" by auto
    then obtain j where j: "j < length xs" "xs ! j = y" by (auto simp: in_set_conv_nth)
    then have "0 = Suc j" using Cons.prems[rule_format, of 0 "Suc j"] y that by simp
    then show False by simp
  qed
  show ?case using Cons.IH[OF tl] hd by simp
qed

lemma inv_distinct_keys:
  assumes inv: "table_inv s"
  shows "distinct (map entry_key (filter (\<lambda>e. entry_state e = RWLOCK_OCCUPIED) (hash_table s)))"
  by (rule distinct_map_filter_nth)
     (use inv inv_length[OF inv] in \<open>auto simp: table_inv_def RWLOCK_HASH_TABLE_SIZE_def\<close>)

lemma snapshot_spec:
  assumes inv: "table_inv s"
  defines "kvs \<equiv> collect_occupied (hash_table s) []"
  shows "distinct (map fst kvs)"
    and "map_of kvs = logical_map s"
    and "int (length kvs) = current_count s"
    and "\<forall>(k, v)\<in>set kvs. take 255 (c_str v) = v"
proof -
  let ?occ = "\<lambda>e. entry_state e = RWLOCK_OCCUPIED"
  have len: "length (hash_table s) = 2048" by (rule inv_length[OF inv])
  from collect_occupied_spec[OF inv_distinct_keys[OF inv], of "[]"]
  have d: "distinct (map fst kvs)"
    and st: "set kvs = {(entry_key e, c_str (entry_value e)) | e. e \<in> set (hash_table s) \<and> ?occ e}"
    and l: "length kvs = length (filter ?occ (hash_table s))"
    by (simp_all add: kvs_def)
  show "distinct (map fst kvs)" by (rule d)
  show "int (length kvs) = current_count s"
    by (simp add: l inv_current[OF inv] count_state_def)
  have mem: "(k, v) \<in> set kvs \<longleftrightarrow> logical_map s k = Some v" for k v
  proof
    assume "(k, v) \<in> set kvs"
    then obtain e where e: "e \<in> set (hash_table s)" "?occ e" "entry_key e = k"
      "v = c_str (entry_value e)" by (auto simp: st)
    then obtain i where i: "i < 2048" "hash_table s ! i = e"
      using len by (auto simp: in_set_conv_nth)
    with e have "key_at (hash_table s) k i" by (simp add: key_at_def)
    from logical_map_key_at[OF inv i(1) this] show "logical_map s k = Some v" using e i by simp
  next
    assume "logical_map s k = Some v"
    from logical_map_SomeD[OF inv this] obtain i where i: "i < 2048" "key_at (hash_table s) k i"
      "v = c_str (entry_value (hash_table s ! i))" by blast
    then have "hash_table s ! i \<in> set (hash_table s)" using len by simp
    with i show "(k, v) \<in> set kvs" by (auto simp: st key_at_def)
  qed
  show "map_of kvs = logical_map s"
  proof
    fix k show "map_of kvs k = logical_map s k"
    proof (cases "logical_map s k")
      case None
      then have "k \<notin> fst ` set kvs" using mem by force
      then show ?thesis using None by (simp add: map_of_eq_None_iff)
    next
      case (Some v)
      then show ?thesis using mem[of k v] d by simp
    qed
  qed
  show "\<forall>(k, v)\<in>set kvs. take 255 (c_str v) = v"
  proof (clarify)
    fix k v assume "(k, v) \<in> set kvs"
    then obtain e where e: "e \<in> set (hash_table s)" "v = c_str (entry_value e)" by (auto simp: st)
    then obtain i where i: "i < 2048" "hash_table s ! i = e"
      using len by (auto simp: in_set_conv_nth)
    from inv_value[OF inv i(1)] i have "length (entry_value e) = MAX_VALUE_LEN" "NUL \<in> set (entry_value e)"
      by simp_all
    then have "length v < 256" using c_str_length_less[of "entry_value e"] e by (simp add: MAX_VALUE_LEN_def)
    then show "take 255 (c_str v) = v" using e by (simp add: c_str_idem)
  qed
qed

section \<open>Rebuilding the table\<close>

lemma inv_count_le:
  assumes inv: "table_inv s"
  shows "0 \<le> current_count s" "0 \<le> deleted_count s" "current_count s + deleted_count s \<le> 2048"
  using count_state_sum[of "hash_table s"] count_state_nonneg[of RWLOCK_EMPTY "hash_table s"]
    count_state_nonneg[of RWLOCK_OCCUPIED "hash_table s"]
    count_state_nonneg[of RWLOCK_DELETED "hash_table s"]
  by (simp_all add: inv_current[OF inv] inv_deleted[OF inv] inv_length[OF inv])

lemma inv_no_deleted:
  assumes inv: "table_inv s" and d: "deleted_count s = 0" and i: "i < 2048"
  shows "entry_state (hash_table s ! i) \<noteq> RWLOCK_DELETED"
  using d i count_state_zero_iff[of RWLOCK_DELETED "hash_table s"]
  by (simp add: inv_deleted[OF inv] inv_length[OF inv])

lemma reinsert_spec:
  assumes "table_inv s" "deleted_count s = 0" "distinct (map fst kvs)"
    and "\<forall>k\<in>fst ` set kvs. logical_map s k = None"
    and "current_count s + int (length kvs) \<le> 2048"
  shows "\<exists>s'. reinsert s kvs = (OK, s') \<and> table_inv s' \<and> deleted_count s' = 0 \<and>
           hash_seed s' = hash_seed s \<and>
           current_count s' = current_count s + int (length kvs) \<and>
           logical_map s' = logical_map s ++ map_of (map (\<lambda>(k, v). (k, take 255 (c_str v))) kvs)"
  using assms
proof (induction kvs arbitrary: s)
  case Nil
  then show ?case by simp
next
  case (Cons kv rest)
  obtain k v where kv: "kv = (k, v)" by (cases kv)
  note inv = Cons.prems(1)
  let ?h = "hash (hash_seed s) k"
  have abs: "\<forall>i<2048. \<not> key_at (hash_table s) k i"
    using Cons.prems(4) kv logical_map_None_iff[OF inv_length[OF inv], of k] by simp
  have "count_state RWLOCK_OCCUPIED (hash_table s) < int (length (hash_table s))"
    using Cons.prems(5) by (simp add: inv_current[OF inv, symmetric] inv_length[OF inv])
  from count_state_less_ex[OF this] obtain i where i: "i < 2048"
    "entry_state (hash_table s ! i) \<noteq> RWLOCK_OCCUPIED" by (auto simp: inv_length[OF inv])
  from findEmptySlot_exists[OF abs i] obtain p where p: "findEmptySlot s k ?h = Some p" by blast
  have p_lt: "p < 2048" using findEmptySlot_SomeD[OF inv p] by simp
  have nd: "entry_state (hash_table s ! p) \<noteq> RWLOCK_DELETED"
    by (rule inv_no_deleted[OF inv Cons.prems(2) p_lt])
  let ?s1 = "store_entry s p k v ?h"
  from insert_spec(1)[OF inv p, of v] insert_spec(2)[OF inv p, of v]
    insert_spec(4)[OF inv p, of v] insert_spec(5)[OF inv p, of v] insert_spec(6)[OF inv p, of v] nd
  have inv1: "table_inv ?s1"
    and lm1: "logical_map ?s1 = (logical_map s)(k \<mapsto> take 255 (c_str v))"
    and cc1: "current_count ?s1 = current_count s + 1"
    and dc1: "deleted_count ?s1 = deleted_count s"
    and seed1: "hash_seed ?s1 = hash_seed s" by simp_all
  have k_fresh: "k \<notin> fst ` set rest" using Cons.prems(3) kv by auto
  have rest_abs: "\<forall>k'\<in>fst ` set rest. logical_map ?s1 k' = None"
    using Cons.prems(4) k_fresh by (auto simp: lm1)
  have "\<exists>s'. reinsert ?s1 rest = (OK, s') \<and> table_inv s' \<and> deleted_count s' = 0 \<and>
           hash_seed s' = hash_seed ?s1 \<and>
           current_count s' = current_count ?s1 + int (length rest) \<and>
           logical_map s' = logical_map ?s1 ++ map_of (map (\<lambda>(k, v). (k, take 255 (c_str v))) rest)"
    by (rule Cons.IH[OF inv1 _ _ rest_abs])
       (use Cons.prems dc1 cc1 in simp_all)
  then obtain s' where s': "reinsert ?s1 rest = (OK, s')" "table_inv s'" "deleted_count s' = 0"
    "hash_seed s' = hash_seed ?s1" "current_count s' = current_count ?s1 + int (length rest)"
    "logical_map s' = logical_map ?s1 ++ map_of (map (\<lambda>(k, v). (k, take 255 (c_str v))) rest)"
    by blast
  let ?rest' = "map (\<lambda>(k, v). (k, take 255 (c_str v))) rest"
  have "fst ` set ?rest' = fst ` set rest" by (induction rest) auto
  then have "k \<notin> dom (map_of ?rest')" using k_fresh by (simp add: dom_map_of_conv_image_fst)
  then have "(logical_map s)(k \<mapsto> take 255 (c_str v)) ++ map_of ?rest'
               = logical_map s ++ map_of ((k, take 255 (c_str v)) # ?rest')"
    by (simp add: map_add_upd_left)
  then have lm: "logical_map s' = logical_map s ++ map_of (map (\<lambda>(k, v). (k, take 255 (c_str v))) (kv # rest))"
    using s'(6) lm1 kv by simp
  have "reinsert s (kv # rest) = (OK, s')" using p s'(1) kv by (simp add: Let_def)
  moreover have "current_count s' = current_count s + int (length (kv # rest))"
    using s'(5) cc1 by simp
  moreover have "hash_seed s' = hash_seed s" using s'(4) seed1 by simp
  ultimately show ?case using s'(2,3) lm by blast
qed

lemma rehashIfNeeded_spec:
  assumes inv: "table_inv s"
  shows "\<exists>s'. rehashIfNeeded s = (OK, s') \<and> table_inv s' \<and> logical_map s' = logical_map s \<and>
           hash_seed s' = hash_seed s \<and> current_count s' = current_count s \<and>
           (if needRehash s then deleted_count s' = 0 else s' = s)"
proof (cases "needRehash s")
  case False
  then show ?thesis using inv by (simp add: rehashIfNeeded_def)
next
  case True
  let ?kvs = "collect_occupied (hash_table s) []"
  let ?c = "clear_states s"
  note snap = snapshot_spec[OF inv]
  note clr = clear_states_spec[OF inv]
  have "\<exists>s'. reinsert ?c ?kvs = (OK, s') \<and> table_inv s' \<and> deleted_count s' = 0 \<and>
           hash_seed s' = hash_seed ?c \<and>
           current_count s' = current_count ?c + int (length ?kvs) \<and>
           logical_map s' = logical_map ?c ++ map_of (map (\<lambda>(k, v). (k, take 255 (c_str v))) ?kvs)"
    by (rule reinsert_spec[OF clr(1) clr(4) snap(1)])
       (use inv_count_le[OF inv] in \<open>simp_all add: clr snap(3)\<close>)
  then obtain s' where s': "reinsert ?c ?kvs = (OK, s')" "table_inv s'" "deleted_count s' = 0"
    "hash_seed s' = hash_seed ?c" "current_count s' = current_count ?c + int (length ?kvs)"
    "logical_map s' = logical_map ?c ++ map_of (map (\<lambda>(k, v). (k, take 255 (c_str v))) ?kvs)"
    by blast
  have "map (\<lambda>(k, v). (k, take 255 (c_str v))) ?kvs = ?kvs"
    using snap(4) by (intro map_idI) auto
  then have "logical_map s' = logical_map s" using s'(6) by (simp add: clr(2) snap(2))
  moreover have "rehashIfNeeded s = (OK, s')" using True s'(1) by (simp add: rehashIfNeeded_def)
  ultimately show ?thesis using s' True by (simp add: clr snap(3))
qed

section \<open>Specification of the public operations\<close>

lemma take_255_short: "length v < MAX_VALUE_LEN \<Longrightarrow> take 255 (c_str v) = c_str v"
  using c_str_length_le[of v] by (simp add: MAX_VALUE_LEN_def)

lemma addRsc_cases:
  assumes inv: "table_inv s"
  obtains (ok) s' where "addRsc s k v = (OK, s')" "length v < MAX_VALUE_LEN"
      "logical_map s k = None" "table_inv s'" "logical_map s' = (logical_map s)(k \<mapsto> c_str v)"
      "current_count s' = current_count s + 1" "hash_seed s' = hash_seed s"
  | (fail) rc s' where "addRsc s k v = (rc, s')" "rc \<noteq> OK" "table_inv s'"
      "logical_map s' = logical_map s" "current_count s' = current_count s"
      "hash_seed s' = hash_seed s"
proof (cases "length v \<ge> MAX_VALUE_LEN")
  case True
  then have "addRsc s k v = (NO_SPACE_ERR, s)" by (simp add: addRsc_def)
  then show ?thesis using inv by (intro fail[of NO_SPACE_ERR s]) (simp_all add: retcode_defs)
next
  case short: False
  from rehashIfNeeded_spec[OF inv] obtain s1 where s1: "rehashIfNeeded s = (OK, s1)"
    "table_inv s1" "logical_map s1 = logical_map s" "hash_seed s1 = hash_seed s"
    "current_count s1 = current_count s" by blast
  let ?h = "hash (hash_seed s1) k"
  show ?thesis
  proof (cases "findEmptySlot s1 k ?h")
    case None
    let ?rc = "if current_count s1 \<ge> RWLOCK_MAX_ENTRIES then NO_SPACE_ERR else DUPLICATE_KEY"
    have "addRsc s k v = (?rc, s1)" using short s1(1) None by (simp add: addRsc_def)
    moreover have "?rc \<noteq> OK" by (simp add: retcode_defs)
    ultimately show ?thesis using s1 by (intro fail[of ?rc s1]) simp_all
  next
    case (Some p)
    let ?s2 = "if entry_state (hash_table s1 ! p) = RWLOCK_DELETED
               then s1\<lparr>deleted_count := deleted_count s1 - 1\<rparr> else s1"
    let ?s' = "store_entry ?s2 p k v ?h"
    have "addRsc s k v = (OK, ?s')" using short s1(1) Some by (simp add: addRsc_def Let_def)
    then show ?thesis
      using insert_spec(1)[OF s1(2) Some, of v] insert_spec(2)[OF s1(2) Some, of v]
        insert_spec(3)[OF s1(2) Some] insert_spec(4)[OF s1(2) Some, of v]
        insert_spec(6)[OF s1(2) Some, of v] s1 short
      by (intro ok[of ?s']) (simp_all add: take_255_short)
  qed
qed

lemma addRsc_dup:
  assumes inv: "table_inv s" and short: "length v < MAX_VALUE_LEN"
    and present: "logical_map s k \<noteq> None"
  shows "addRsc s k v =
           (if current_count s \<ge> RWLOCK_MAX_ENTRIES then NO_SPACE_ERR else DUPLICATE_KEY,
            snd (rehashIfNeeded s))"
proof -
  from rehashIfNeeded_spec[OF inv] obtain s1 where s1: "rehashIfNeeded s = (OK, s1)"
    "table_inv s1" "logical_map s1 = logical_map s" "hash_seed s1 = hash_seed s"
    "current_count s1 = current_count s" by blast
  from present s1(3) obtain i where "i < 2048" "key_at (hash_table s1) k i"
    using logical_map_None_iff[OF inv_length[OF s1(2)], of k] by auto
  from findEmptySlot_dup[OF s1(2) this] show ?thesis
    using short s1 by (simp add: addRsc_def)
qed

lemma addRsc_new:
  assumes inv: "table_inv s" and short: "length v < MAX_VALUE_LEN"
    and absent: "logical_map s k = None" and room: "current_count s < 2048"
  shows "fst (addRsc s k v) = OK"
proof -
  from rehashIfNeeded_spec[OF inv] obtain s1 where s1: "rehashIfNeeded s = (OK, s1)"
    "table_inv s1" "logical_map s1 = logical_map s" "hash_seed s1 = hash_seed s"
    "current_count s1 = current_count s" by blast
  have abs: "\<forall>i<2048. \<not> key_at (hash_table s1) k i"
    using absent s1(3) logical_map_None_iff[OF inv_length[OF s1(2)], of k] by simp
  have "count_state RWLOCK_OCCUPIED (hash_table s1) < int (length (hash_table s1))"
    using room s1(5) by (simp add: inv_current[OF s1(2), symmetric] inv_length[OF s1(2)])
  from count_state_less_ex[OF this] obtain i where i: "i < 2048"
    "entry_state (hash_table s1 ! i) \<noteq> RWLOCK_OCCUPIED" by (auto simp: inv_length[OF s1(2)])
  from findEmptySlot_exists[OF abs i] obtain p where
    "findEmptySlot s1 k (hash (hash_seed s1) k) = Some p" by blast
  then show ?thesis using short s1(1) by (simp add: addRsc_def Let_def)
qed

lemma updateRsc_cases:
  assumes inv: "table_inv s"
  obtains (ok) s' where "updateRsc s k v = (OK, s')" "length v < MAX_VALUE_LEN"
      "logical_map s k \<noteq> None" "table_inv s'" "logical_map s' = (logical_map s)(k \<mapsto> c_str v)"
      "current_count s' = current_count s" "deleted_count s' = deleted_count s"
      "hash_seed s' = hash_seed s"
  | (too_long) "updateRsc s k v = (NO_SPACE_ERR, s)" "length v \<ge> MAX_VALUE_LEN"
  | (missing) "updateRsc s k v = (NOT_FOUND, s)" "logical_map s k = None"
proof (cases "length v \<ge> MAX_VALUE_LEN")
  case True
  then show ?thesis by (intro too_long) (simp_all add: updateRsc_def)
next
  case short: False
  show ?thesis
  proof (cases "findEntry s k (hash (hash_seed s) k)")
    case None
    then have "logical_map s k = None"
      using findEntry_None_iff[OF inv, of k] logical_map_None_iff[OF inv_length[OF inv], of k]
      by simp
    then show ?thesis using None short by (intro missing) (simp_all add: updateRsc_def)
  next
    case (Some p)
    from findEntry_SomeD[OF Some] have p: "p < 2048" "key_at (hash_table s) k p" by simp_all
    have "logical_map s k \<noteq> None" using logical_map_key_at[OF inv p] by simp
    moreover have "updateRsc s k v = (OK, overwrite_value s p v)"
      using Some short by (simp add: updateRsc_def)
    ultimately show ?thesis
      using overwrite_value_spec[OF inv p, of v] short
      by (intro ok[of "overwrite_value s p v"]) (simp_all add: take_255_short)
  qed
qed

lemma upsertRsc_cases:
  assumes inv: "table_inv s"
  obtains (ok) s' where "upsertRsc s k v = (OK, s')" "length v < MAX_VALUE_LEN"
      "table_inv s'" "logical_map s' = (logical_map s)(k \<mapsto> c_str v)"
      "hash_seed s' = hash_seed s"
  | (fail) rc s' where "upsertRsc s k v = (rc, s')" "rc \<noteq> OK" "table_inv s'"
      "logical_map s' = logical_map s" "current_count s' = current_count s"
      "hash_seed s' = hash_seed s"
proof (cases "length v \<ge> MAX_VALUE_LEN")
  case True
  then have "upsertRsc s k v = (NO_SPACE_ERR, s)" by (simp add: upsertRsc_def)
  then show ?thesis using inv by (intro fail[of NO_SPACE_ERR s]) (simp_all add: retcode_defs)
next
  case short: False
  let ?h = "hash (hash_seed s) k"
  show ?thesis
  proof (cases "findEntry s k ?h")
    case (Some p)
    from findEntry_SomeD[OF Some] have p: "p < 2048" "key_at (hash_table s) k p" by simp_all
    have "upsertRsc s k v = (OK, overwrite_value s p v)"
      using Some short by (simp add: upsertRsc_def)
    then show ?thesis
      using overwrite_value_spec[OF inv p, of v] short
      by (intro ok[of "overwrite_value s p v"]) (simp_all add: take_255_short)
  next
    case None
    from rehashIfNeeded_spec[OF inv] obtain s1 where s1: "rehashIfNeeded s = (OK, s1)"
      "table_inv s1" "logical_map s1 = logical_map s" "hash_seed s1 = hash_seed s"
      "current_count s1 = current_count s" by blast
    show ?thesis
    proof (cases "findEmptySlot s1 k ?h")
      case N: None
      have "upsertRsc s k v = (NO_SPACE_ERR, s1)"
        using short None s1(1) N by (simp add: upsertRsc_def)
      then show ?thesis using s1 by (intro fail[of NO_SPACE_ERR s1]) (simp_all add: retcode_defs)
    next
      case S: (Some p)
      let ?s2 = "if entry_state (hash_table s1 ! p) = RWLOCK_DELETED
                 then s1\<lparr>deleted_count := deleted_count s1 - 1\<rparr> else s1"
      let ?s' = "store_entry ?s2 p k v ?h"
      have S': "findEmptySlot s1 k (hash (hash_seed s1) k) = Some p" using S s1(4) by simp
      have "upsertRsc s k v = (OK, ?s')"
        using short None s1(1) S by (simp add: upsertRsc_def Let_def)
      then show ?thesis
        using insert_spec(1)[OF s1(2) S', of v] insert_spec(2)[OF s1(2) S', of v]
          insert_spec(6)[OF s1(2) S', of v] s1 short
        by (intro ok[of ?s']) (simp_all add: take_255_short)
    qed
  qed
qed

lemma removeRsc_cases:
  assumes inv: "table_inv s"
  obtains (ok) s' where "removeRsc s k = (OK, s')" "logical_map s k \<noteq> None" "table_inv s'"
      "logical_map s' = (logical_map s)(k := None)" "hash_seed s' = hash_seed s"
      "current_count s' = current_count s - 1" "deleted_count s' = deleted_count s + 1"
  | (missing) "removeRsc s k = (NOT_FOUND, s)" "logical_map s k = None"
proof (cases "logical_map s k")
  case None
  then have "\<forall>i<2048. \<not> key_at (hash_table s) k i"
    using logical_map_None_iff[OF inv_length[OF inv], of k] by simp
  from removeRsc_absent[OF this] None show ?thesis by (rule missing)
next
  case (Some x)
  from logical_map_SomeD[OF inv Some] obtain p where p: "p < 2048" "key_at (hash_table s) k p"
    by blast
  show ?thesis
    by (rule ok[OF removeRsc_present(1)[OF inv p] _ removeRsc_present(2)[OF inv p]
          removeRsc_present(3)[OF inv p]])
       (simp_all add: Some)
qed

lemma batch_step_spec:
  assumes inv: "table_inv s"
  shows "table_inv (fst (batch_step (s, n) (k, v))) \<and>
        (\<forall>k'. k' \<noteq> k \<longrightarrow> logical_map (fst (batch_step (s, n) (k, v))) k' = logical_map s k') \<and>
        (logical_map (fst (batch_step (s, n) (k, v))) k = None \<longleftrightarrow> logical_map s k = None) \<and>
        current_count (fst (batch_step (s, n) (k, v))) = current_count s \<and>
        deleted_count (fst (batch_step (s, n) (k, v))) = deleted_count s \<and>
        hash_seed (fst (batch_step (s, n) (k, v))) = hash_seed s"
proof (cases "length v \<ge> MAX_VALUE_LEN \<or> findEntry s k (hash (hash_seed s) k) = None")
  case True
  then have "batch_step (s, n) (k, v) = (s, n)" by (auto simp: batch_step_def)
  then show ?thesis using inv by simp
next
  case False
  then obtain p where f: "findEntry s k (hash (hash_seed s) k) = Some p"
    and short: "length v < MAX_VALUE_LEN" by auto
  from findEntry_SomeD[OF f] have p: "p < 2048" "key_at (hash_table s) k p" by simp_all
  have "batch_step (s, n) (k, v) = (overwrite_value s p v, n + 1)"
    using f short by (simp add: batch_step_def)
  then show ?thesis
    using overwrite_value_spec[OF inv p, of v] logical_map_key_at[OF inv p] by simp
qed

lemma batch_fold_spec:
  assumes "table_inv s"
  shows "table_inv (fst (foldl batch_step (s, n) m)) \<and>
         (k' \<notin> fst ` set m \<longrightarrow> logical_map (fst (foldl batch_step (s, n) m)) k' = logical_map s k') \<and>
         (logical_map (fst (foldl batch_step (s, n) m)) k' = None \<longleftrightarrow> logical_map s k' = None) \<and>
         current_count (fst (foldl batch_step (s, n) m)) = current_count s \<and>
         deleted_count (fst (foldl batch_step (s, n) m)) = deleted_count s \<and>
         hash_seed (fst (foldl batch_step (s, n) m)) = hash_seed s"
  using assms
proof (induction m arbitrary: s n)
  case Nil then show ?case by simp
next
  case (Cons kv m)
  obtain k v where kv: "kv = (k, v)" by (cases kv)
  obtain s1 n1 where b: "batch_step (s, n) (k, v) = (s1, n1)" by (cases "batch_step (s, n) (k, v)")
  from batch_step_spec[OF Cons.prems, where n = n and k = k and v = v]
  have st: "table_inv s1" "k' \<noteq> k \<longrightarrow> logical_map s1 k' = logical_map s k'"
    "logical_map s1 k = None \<longleftrightarrow> logical_map s k = None"
    "current_count s1 = current_count s" "deleted_count s1 = deleted_count s"
    "hash_seed s1 = hash_seed s" by (simp_all add: b)
  have none: "logical_map s1 k' = None \<longleftrightarrow> logical_map s k' = None"
    using st(2,3) by (cases "k' = k") simp_all
  from Cons.IH[OF st(1), of n1] show ?case
    using st(2) none st(4,5,6) by (auto simp: kv b)
qed

lemma batchUpdateRsc_spec:
  assumes "table_inv s"
  shows "table_inv (snd (batchUpdateRsc s m))"
    and "k' \<notin> fst ` set m \<Longrightarrow> logical_map (snd (batchUpdateRsc s m)) k' = logical_map s k'"
    and "logical_map (snd (batchUpdateRsc s m)) k' = None \<longleftrightarrow> logical_map s k' = None"
    and "current_count (snd (batchUpdateRsc s m)) = current_count s"
    and "deleted_count (snd (batchUpdateRsc s m)) = deleted_count s"
    and "hash_seed (snd (batchUpdateRsc s m)) = hash_seed s"
  using batch_fold_spec[OF assms, of 0 m k']
  by (simp_all add: batchUpdateRsc_def split_beta)

section \<open>The invariants hold in every reachable state\<close>

lemma count_state_replicate:
  "count_state st (replicate n e) = (if entry_state e = st then int n else 0)"
  by (simp add: count_state_def)

lemma init_inv: "table_inv (init_shared_data seed)"
  unfolding table_inv_def
  by (simp add: init_shared_data_def init_entry_def count_state_replicate
        RWLOCK_HASH_TABLE_SIZE_def MAX_VALUE_LEN_def)

lemma init_logical_map: "logical_map (init_shared_data seed) = Map.empty"
  by (intro ext)
     (simp add: logical_map_None_iff init_shared_data_def init_entry_def key_at_def
        RWLOCK_HASH_TABLE_SIZE_def)

lemma apply_op_inv:
  assumes inv: "table_inv s"
  shows "table_inv (snd (apply_op s x))"
proof (cases x)
  case (Add k v)
  show ?thesis by (cases rule: addRsc_cases[OF inv, of k v]) (simp_all add: inv Add)
next
  case (Update k v)
  show ?thesis by (cases rule: updateRsc_cases[OF inv, of k v]) (simp_all add: inv Update)
next
  case (Upsert k v)
  show ?thesis by (cases rule: upsertRsc_cases[OF inv, of k v]) (simp_all add: inv Upsert)
next
  case (Remove k)
  show ?thesis by (cases rule: removeRsc_cases[OF inv, of k]) (simp_all add: inv Remove)
next
  case Clear
  then show ?thesis using clear_states_spec(1)[OF inv] by (simp add: clearRsc_def)
next
  case (BatchUpdate m)
  then show ?thesis using batchUpdateRsc_spec(1)[OF inv] by simp
qed

lemma run_ops_inv: "table_inv s \<Longrightarrow> table_inv (run_ops s ops)"
  by (induction ops arbitrary: s) (simp_all add: apply_op_inv)

lemma reachable_inv: "table_inv (run_ops (init_shared_data seed) ops)"
  by (rule run_ops_inv[OF init_inv])

section \<open>The probe sequence of the loops\<close>

lemma hash_0_0: "hash 0 0 = 0"
  by (simp add: hash_def)

lemma hash2_0_0: "hash2 0 0 = 51"
  by (simp add: hash2_def RWLOCK_HASH_TABLE_SIZE_def)

lemma probe_of_closed:
  "probe_of seed k s = (unat (hash seed k) + tri s * unat (hash2 seed k)) mod 2048"
  unfolding probe_of_def by (rule probe_seq_closed[OF hash_lt])

lemma probe_step_two_never_arithmetic:
  "probe_of seed k 2 \<noteq> (unat (hash seed k) + 2 * unat (hash2 seed k)) mod 2048"
proof
  let ?h = "unat (hash seed k)" and ?m = "unat (hash2 seed k)"
  assume "probe_of seed k 2 = (?h + 2 * ?m) mod 2048"
  moreover have "tri 2 = 3" by (simp add: numeral_2_eq_2)
  ultimately have "(?h + 2 * ?m + ?m) mod 2048 = (?h + 2 * ?m) mod 2048"
    by (simp add: probe_of_closed algebra_simps)
  then have "2048 dvd ?m"
    by (metis add_diff_cancel_left' mod_eq_dvd_iff_nat le_add1)
  then have "even ?m" by (meson dvd_trans even_numeral)
  then show False using hash2_odd[of seed k] by simp
qed

text \<open>C1: at seed 0 and key 0 the loops start at slot 0 with step 51. After two iterations the
  position is 153, which is \<open>0 + 3 * 51\<close>: iteration \<open>step\<close> adds \<open>(step + 1) * hash2_val\<close> to the
  current position, so the multiples of the step that have been added are the triangular
  numbers. The arithmetic progression \<open>(primary + s * secondary) mod CAPACITY\<close> would be at
  102.\<close>

theorem probe_step_two_divergence:
  "probe_seq (unat (hash 0 0)) (hash2 0 0) 2 = 153 \<and>
   (unat (hash 0 0) + 2 * unat (hash2 0 0)) mod 2048 = 102 \<and>
   findEntry_loop tbl k (hash2 0 0) (probe_seq (unat (hash 0 0)) (hash2 0 0) 1) 1 =
     (if entry_state (tbl ! 51) = RWLOCK_EMPTY then None
      else if key_at tbl k 51 then Some 51
      else findEntry_loop tbl k (hash2 0 0) 153 2)"
proof -
  have t1: "tri 1 = 1" by simp
  have t2: "tri 2 = 3" by (simp add: numeral_2_eq_2)
  have p1: "probe_seq (unat (hash 0 0)) (hash2 0 0) 1 = 51"
    using probe_seq_closed[OF hash_lt, of 0 0 "hash2 0 0" 1]
    by (simp only: t1 hash_0_0 hash2_0_0) simp
  have p2: "probe_seq (unat (hash 0 0)) (hash2 0 0) 2 = 153"
    using probe_seq_closed[OF hash_lt, of 0 0 "hash2 0 0" 2]
    by (simp only: t2 hash_0_0 hash2_0_0) simp
  have s2: "Suc 1 = 2" by simp
  have "findEntry_loop tbl k (hash2 0 0) (probe_seq (unat (hash 0 0)) (hash2 0 0) 1) 1 =
     (if entry_state (tbl ! 51) = RWLOCK_EMPTY then None
      else if key_at tbl k 51 then Some 51
      else findEntry_loop tbl k (hash2 0 0) 153 2)"
    using findEntry_loop_unfold[of 1 tbl k "hash2 0 0" "unat (hash 0 0)"]
    by (simp only: s2 p1 p2)
  moreover have "(unat (hash 0 0) + 2 * unat (hash2 0 0)) mod 2048 = 102"
    by (simp only: hash_0_0 hash2_0_0) simp
  ultimately show ?thesis using p2 by (simp only: simp_thms)
qed

text \<open>C4: for every seed and key the first \<open>RWLOCK_HASH_TABLE_SIZE\<close> positions of the probe
  sequence that the loops generate (start at \<open>hash\<close>, advance by \<open>getNextProbe\<close> with step 1, 2,
  ...) are pairwise distinct and are exactly the slot indices: every slot is visited exactly
  once. The step \<open>hash2\<close> is odd.\<close>

theorem probe_sequence_visits_every_slot_once:
  "odd (unat (hash2 seed k)) \<and>
   distinct (map (probe_seq (unat (hash seed k)) (hash2 seed k)) [0..<RWLOCK_HASH_TABLE_SIZE]) \<and>
   set (map (probe_seq (unat (hash seed k)) (hash2 seed k)) [0..<RWLOCK_HASH_TABLE_SIZE])
     = {0..<RWLOCK_HASH_TABLE_SIZE}"
proof -
  let ?P = "probe_seq (unat (hash seed k)) (hash2 seed k)"
  define n :: nat where "n = 2048"
  have inj: "inj_on ?P {0..<n}"
    by (rule inj_onI) (use probe_seq_inj[OF hash_lt[of seed k] hash2_odd[of seed k]] in \<open>auto simp: n_def\<close>)
  have d: "distinct (map ?P [0..<n])"
    using inj by (simp add: distinct_map)
  have "?P ` {0..<n} = {0..<n}"
  proof
    show "?P ` {0..<n} \<subseteq> {0..<n}" using probe_seq_lt[OF hash_lt[of seed k]] by (auto simp: n_def)
    show "{0..<n} \<subseteq> ?P ` {0..<n}"
    proof
      fix i :: nat assume "i \<in> {0..<n}"
      then have "i < 2048" by (simp add: n_def)
      from probe_seq_surj[OF hash_lt[of seed k] hash2_odd[of seed k] this]
      show "i \<in> ?P ` {0..<n}" by (auto simp: n_def)
    qed
  qed
  then have "set (map ?P [0..<n]) = {0..<n}" by simp
  moreover have "RWLOCK_HASH_TABLE_SIZE = n" by (simp add: n_def RWLOCK_HASH_TABLE_SIZE_def)
  ultimately show ?thesis using d hash2_odd[of seed k] by (simp only: simp_thms)
qed

section \<open>Filling the table beyond the load ceiling\<close>

lemma unat_word_of_nat_small: "i < 2 ^ 32 \<Longrightarrow> unat (word_of_nat i :: 32 word) = i"
  by (simp add: unat_of_nat take_bit_nat_eq_self)

lemma word_of_nat_eq_iff_small:
  "i < 2 ^ 32 \<Longrightarrow> j < 2 ^ 32 \<Longrightarrow> (word_of_nat i :: 32 word) = word_of_nat j \<longleftrightarrow> i = j"
  using unat_word_of_nat_small by metis

lemma addRsc_new_state:
  assumes inv: "table_inv s" and short: "length v < MAX_VALUE_LEN"
    and absent: "logical_map s k = None" and room: "current_count s < 2048"
  shows "fst (addRsc s k v) = OK" "table_inv (snd (addRsc s k v))"
    "logical_map (snd (addRsc s k v)) = (logical_map s)(k \<mapsto> c_str v)"
    "current_count (snd (addRsc s k v)) = current_count s + 1"
    "hash_seed (snd (addRsc s k v)) = hash_seed s"
proof -
  have ok: "fst (addRsc s k v) = OK" by (rule addRsc_new[OF inv short absent room])
  have "table_inv (snd (addRsc s k v)) \<and>
    logical_map (snd (addRsc s k v)) = (logical_map s)(k \<mapsto> c_str v) \<and>
    current_count (snd (addRsc s k v)) = current_count s + 1 \<and>
    hash_seed (snd (addRsc s k v)) = hash_seed s"
    using ok by (cases rule: addRsc_cases[OF inv, of k v]) simp_all
  then show "fst (addRsc s k v) = OK" "table_inv (snd (addRsc s k v))"
    "logical_map (snd (addRsc s k v)) = (logical_map s)(k \<mapsto> c_str v)"
    "current_count (snd (addRsc s k v)) = current_count s + 1"
    "hash_seed (snd (addRsc s k v)) = hash_seed s"
    using ok by simp_all
qed

lemma add_keys_spec:
  assumes "table_inv s"
    and "\<forall>i. lo \<le> i \<and> i < lo + n \<longrightarrow> logical_map s (word_of_nat i) = None"
    and "lo + n \<le> 2 ^ 32"
    and "current_count s + int n \<le> 2048"
  shows "run_rets s (add_keys lo n) = replicate n OK \<and>
         table_inv (run_ops s (add_keys lo n)) \<and>
         current_count (run_ops s (add_keys lo n)) = current_count s + int n \<and>
         hash_seed (run_ops s (add_keys lo n)) = hash_seed s \<and>
         (\<forall>k. logical_map (run_ops s (add_keys lo n)) k =
            (if \<exists>i. lo \<le> i \<and> i < lo + n \<and> k = word_of_nat i then Some []
             else logical_map s k))"
  using assms
proof (induction n arbitrary: lo s)
  case 0
  then show ?case by auto
next
  case (Suc n)
  let ?k = "word_of_nat lo :: 32 word"
  let ?s1 = "snd (addRsc s ?k [])"
  have absent: "logical_map s ?k = None" using Suc.prems(2) by simp
  have room: "current_count s < 2048" using Suc.prems(4) by simp
  have short: "length ([] :: string) < MAX_VALUE_LEN" by (simp add: MAX_VALUE_LEN_def)
  note a = addRsc_new_state[OF Suc.prems(1) short absent room]
  have lm1: "logical_map ?s1 = (logical_map s)(?k \<mapsto> [])" using a(3) by (simp add: c_str_def)
  have rest: "\<forall>i. Suc lo \<le> i \<and> i < Suc lo + n \<longrightarrow> logical_map ?s1 (word_of_nat i) = None"
  proof (intro allI impI)
    fix i assume i: "Suc lo \<le> i \<and> i < Suc lo + n"
    then have "(word_of_nat i :: 32 word) \<noteq> ?k"
      using Suc.prems(3) word_of_nat_eq_iff_small[of i lo] by simp
    then show "logical_map ?s1 (word_of_nat i) = None" using Suc.prems(2) i by (simp add: lm1)
  qed
  have IH: "run_rets ?s1 (add_keys (Suc lo) n) = replicate n OK \<and>
         table_inv (run_ops ?s1 (add_keys (Suc lo) n)) \<and>
         current_count (run_ops ?s1 (add_keys (Suc lo) n)) = current_count ?s1 + int n \<and>
         hash_seed (run_ops ?s1 (add_keys (Suc lo) n)) = hash_seed ?s1 \<and>
         (\<forall>k. logical_map (run_ops ?s1 (add_keys (Suc lo) n)) k =
            (if \<exists>i. Suc lo \<le> i \<and> i < Suc lo + n \<and> k = word_of_nat i then Some []
             else logical_map ?s1 k))"
    by (rule Suc.IH[OF a(2) rest]) (use Suc.prems a(4) in simp_all)
  define P where "P k \<longleftrightarrow> (\<exists>i. lo \<le> i \<and> i < lo + Suc n \<and> k = word_of_nat i)" for k :: "32 word"
  define P1 where "P1 k \<longleftrightarrow> (\<exists>i. Suc lo \<le> i \<and> i < Suc lo + n \<and> k = word_of_nat i)" for k :: "32 word"
  have P1_P: "P k" if "P1 k" for k
  proof -
    from that obtain i where "Suc lo \<le> i" "i < Suc lo + n" "k = word_of_nat i"
      unfolding P1_def by blast
    then have "lo \<le> i \<and> i < lo + Suc n \<and> k = word_of_nat i" by simp
    then show ?thesis unfolding P_def by blast
  qed
  have P_k: "P ?k" unfolding P_def by (intro exI[of _ lo]) simp
  have P_P1: "P1 k" if "P k" "k \<noteq> ?k" for k
  proof -
    from that obtain i where i: "lo \<le> i" "i < lo + Suc n" "k = word_of_nat i"
      unfolding P_def by blast
    with that(2) have "i \<noteq> lo" by auto
    with i have "Suc lo \<le> i \<and> i < Suc lo + n \<and> k = word_of_nat i" by simp
    then show ?thesis unfolding P1_def by blast
  qed
  have IHm: "logical_map (run_ops ?s1 (add_keys (Suc lo) n)) k =
               (if P1 k then Some [] else logical_map ?s1 k)" for k
    using IH unfolding P1_def by blast
  have run: "run_ops s (add_keys lo (Suc n)) = run_ops ?s1 (add_keys (Suc lo) n)" by simp
  have maps: "logical_map (run_ops s (add_keys lo (Suc n))) k =
                (if P k then Some [] else logical_map s k)" for k
  proof (cases "P1 k")
    case True
    then show ?thesis using P1_P[OF True] by (simp only: run IHm if_True)
  next
    case False
    show ?thesis
    proof (cases "k = ?k")
      case True
      then show ?thesis using False P_k by (simp only: run IHm lm1 if_False if_True fun_upd_same)
    next
      case ne: False
      then have "\<not> P k" using P_P1 False by blast
      then show ?thesis using False ne by (simp add: run IHm lm1 del: add_keys.simps run_ops.simps)
    qed
  qed
  have rets: "run_rets s (add_keys lo (Suc n)) = replicate (Suc n) OK"
    using IH a(1) by simp
  have cnt: "current_count (run_ops s (add_keys lo (Suc n))) = current_count s + int (Suc n)"
    using IH a(4) by simp
  have sd: "hash_seed (run_ops s (add_keys lo (Suc n))) = hash_seed s"
    using IH a(5) by simp
  have iv: "table_inv (run_ops s (add_keys lo (Suc n)))" using IH by simp
  show ?case using rets cnt sd iv maps unfolding P_def by blast
qed

lemma init_counts:
  "current_count (init_shared_data seed) = 0" "deleted_count (init_shared_data seed) = 0"
  "hash_seed (init_shared_data seed) = seed"
  by (simp_all add: init_shared_data_def)

lemma fill_spec:
  assumes n: "n \<le> 2048"
  shows "run_rets (init_shared_data seed) (add_keys 0 n) = replicate n OK"
    and "table_inv (run_ops (init_shared_data seed) (add_keys 0 n))"
    and "current_count (run_ops (init_shared_data seed) (add_keys 0 n)) = int n"
    and "logical_map (run_ops (init_shared_data seed) (add_keys 0 n)) k =
           (if \<exists>i<n. k = word_of_nat i then Some [] else None)"
proof -
  have "(2048 :: nat) \<le> 2 ^ 32" by simp
  then have "0 + n \<le> (2 :: nat) ^ 32" using n by linarith
  from add_keys_spec[OF init_inv _ this, of seed] n
  show "run_rets (init_shared_data seed) (add_keys 0 n) = replicate n OK"
    and "table_inv (run_ops (init_shared_data seed) (add_keys 0 n))"
    and "current_count (run_ops (init_shared_data seed) (add_keys 0 n)) = int n"
    and "logical_map (run_ops (init_shared_data seed) (add_keys 0 n)) k =
           (if \<exists>i<n. k = word_of_nat i then Some [] else None)"
    by (simp_all add: init_logical_map init_counts)
qed

lemma reachable_counts:
  "0 \<le> current_count (run_ops (init_shared_data seed) ops) \<and>
   0 \<le> deleted_count (run_ops (init_shared_data seed) ops) \<and>
   current_count (run_ops (init_shared_data seed) ops)
     + deleted_count (run_ops (init_shared_data seed) ops) \<le> 2048"
  using inv_count_le[OF reachable_inv[of seed ops]] by simp

text \<open>C2: on a fresh table (seed 0), the 1537 insertions of the distinct keys 0, ..., 1536
  with the empty value all return \<open>OK\<close>, none returns \<open>NO_SPACE_ERR\<close>, and the live counter
  ends at 1537, above \<open>RWLOCK_MAX_ENTRIES\<close>: \<open>addRsc\<close> compares the counter with
  \<open>RWLOCK_MAX_ENTRIES\<close> only after \<open>findEmptySlot\<close> has failed, which a table with an empty
  slot never does for a new key.\<close>

theorem add_beyond_max_entries:
  "run_rets (init_shared_data 0) (add_keys 0 1537) = replicate 1537 OK \<and>
   NO_SPACE_ERR \<notin> set (run_rets (init_shared_data 0) (add_keys 0 1537)) \<and>
   current_count (run_ops (init_shared_data 0) (add_keys 0 1537)) = 1537 \<and>
   current_count (run_ops (init_shared_data 0) (add_keys 0 1537)) > RWLOCK_MAX_ENTRIES"
proof -
  have n: "(1537 :: nat) \<le> 2048" by simp
  have r: "run_rets (init_shared_data 0) (add_keys 0 1537) = replicate 1537 OK"
    by (rule fill_spec(1)[OF n])
  have c: "current_count (run_ops (init_shared_data 0) (add_keys 0 1537)) = 1537"
    using fill_spec(3)[OF n, of 0] by simp
  have "NO_SPACE_ERR \<notin> set (replicate 1537 OK)"
    by (simp only: set_replicate_conv_if) (simp add: retcode_defs)
  then show ?thesis using r c by (simp only: RWLOCK_MAX_ENTRIES_def) simp
qed

section \<open>Rehash keeps the content\<close>

lemma occupied_pairs_logical:
  assumes inv: "table_inv s"
  shows "occupied_pairs s = {(k, v). logical_map s k = Some v}"
proof -
  have len: "length (hash_table s) = 2048" by (rule inv_length[OF inv])
  have "(k, v) \<in> occupied_pairs s \<longleftrightarrow> logical_map s k = Some v" for k v
  proof
    assume "(k, v) \<in> occupied_pairs s"
    then obtain e where e: "e \<in> set (hash_table s)" "entry_state e = RWLOCK_OCCUPIED"
      "entry_key e = k" "v = c_str (entry_value e)" by (auto simp: occupied_pairs_def)
    then obtain i where i: "i < 2048" "hash_table s ! i = e"
      using len by (auto simp: in_set_conv_nth)
    with e have "key_at (hash_table s) k i" by (simp add: key_at_def)
    from logical_map_key_at[OF inv i(1) this] show "logical_map s k = Some v" using e i by simp
  next
    assume "logical_map s k = Some v"
    from logical_map_SomeD[OF inv this] obtain i where i: "i < 2048" "key_at (hash_table s) k i"
      "v = c_str (entry_value (hash_table s ! i))" by blast
    then have "hash_table s ! i \<in> set (hash_table s)" using len by simp
    with i show "(k, v) \<in> occupied_pairs s" by (force simp: occupied_pairs_def key_at_def)
  qed
  then show ?thesis by auto
qed

section \<open>Remove\<close>

lemma c_str_a: "c_str ''a'' = ''a''"
  by (simp add: c_str_def NUL_def)

lemma one_add:
  "fst (addRsc (init_shared_data 0) 7 ''a'') = OK"
  "table_inv (run_ops (init_shared_data 0) [Add 7 ''a''])"
  "logical_map (run_ops (init_shared_data 0) [Add 7 ''a'']) = [7 \<mapsto> ''a'']"
  "isContain (run_ops (init_shared_data 0) [Add 7 ''a'']) 7"
  "current_count (run_ops (init_shared_data 0) [Add 7 ''a'']) = 1"
proof -
  have short: "length ''a'' < MAX_VALUE_LEN" by (simp add: MAX_VALUE_LEN_def)
  have absent: "logical_map (init_shared_data 0) 7 = None" by (simp add: init_logical_map)
  have room: "current_count (init_shared_data 0) < 2048" by (simp add: init_counts)
  note a = addRsc_new_state[OF init_inv short absent room]
  show "fst (addRsc (init_shared_data 0) 7 ''a'') = OK" by (rule a(1))
  show inv: "table_inv (run_ops (init_shared_data 0) [Add 7 ''a''])" using a(2) by simp
  show lm: "logical_map (run_ops (init_shared_data 0) [Add 7 ''a'']) = [7 \<mapsto> ''a'']"
    using a(3) by (simp add: c_str_a init_logical_map)
  show "isContain (run_ops (init_shared_data 0) [Add 7 ''a'']) 7"
    by (simp only: isContain_logical[OF inv] lm) simp
  show "current_count (run_ops (init_shared_data 0) [Add 7 ''a'']) = 1"
    using a(4) by (simp add: init_counts)
qed

text \<open>C8: in every reachable state in which key \<open>k\<close> is present, \<open>removeRsc\<close> returns \<open>OK\<close> and
  changes exactly this: the state of the slot \<open>p\<close> that holds \<open>k\<close> becomes \<open>RWLOCK_DELETED\<close>,
  \<open>current_count\<close> goes down by one and \<open>deleted_count\<close> up by one. A second \<open>removeRsc\<close> then
  returns \<open>NOT_FOUND\<close> and changes nothing; \<open>isContain\<close> is false and \<open>getRsc\<close> returns the empty
  string.\<close>

theorem remove_twice:
  assumes "s = run_ops (init_shared_data seed) ops" and "isContain s k"
  shows "\<exists>p<RWLOCK_HASH_TABLE_SIZE.
           key_at (hash_table s) k p \<and>
           (let s' = s\<lparr>hash_table :=
                         (hash_table s)[p := (hash_table s ! p)\<lparr>entry_state := RWLOCK_DELETED\<rparr>],
                       current_count := current_count s - 1,
                       deleted_count := deleted_count s + 1\<rparr>
            in removeRsc s k = (OK, s') \<and> removeRsc s' k = (NOT_FOUND, s') \<and>
               \<not> isContain s' k \<and> getRsc s' k = [])"
proof -
  have inv: "table_inv s" unfolding assms(1) by (rule reachable_inv)
  from assms(2) have "logical_map s k \<noteq> None" by (simp add: isContain_logical[OF inv])
  then obtain p where p: "p < 2048" "key_at (hash_table s) k p"
    using logical_map_None_iff[OF inv_length[OF inv], of k] by auto
  let ?s' = "s\<lparr>hash_table := (hash_table s)[p := (hash_table s ! p)\<lparr>entry_state := RWLOCK_DELETED\<rparr>],
                current_count := current_count s - 1, deleted_count := deleted_count s + 1\<rparr>"
  note r = removeRsc_present[OF inv p]
  have gone: "logical_map ?s' k = None" by (simp add: r(3))
  then have abs: "\<forall>i<2048. \<not> key_at (hash_table ?s') k i"
    using logical_map_None_iff[OF inv_length[OF r(2)], of k] by simp
  have "removeRsc ?s' k = (NOT_FOUND, ?s')" by (rule removeRsc_absent[OF abs])
  moreover have "\<not> isContain ?s' k" using gone by (simp only: isContain_logical[OF r(2)]) simp
  moreover have "getRsc ?s' k = []" using gone by (simp only: getRsc_logical[OF r(2)]) simp
  ultimately have "key_at (hash_table s) k p \<and>
           (let s' = ?s' in removeRsc s k = (OK, s') \<and> removeRsc s' k = (NOT_FOUND, s') \<and>
               \<not> isContain s' k \<and> getRsc s' k = [])"
    using p(2) r(1) by (simp only: Let_def simp_thms)
  then show ?thesis using p(1) unfolding RWLOCK_HASH_TABLE_SIZE_def by blast
qed

theorem remove_twice_witness:
  "isContain (run_ops (init_shared_data 0) [Add 7 ''a'']) 7 \<and>
   (\<exists>p<RWLOCK_HASH_TABLE_SIZE.
      key_at (hash_table (run_ops (init_shared_data 0) [Add 7 ''a''])) 7 p \<and>
      (let s' = (run_ops (init_shared_data 0) [Add 7 ''a''])\<lparr>hash_table :=
                   (hash_table (run_ops (init_shared_data 0) [Add 7 ''a'']))
                     [p := (hash_table (run_ops (init_shared_data 0) [Add 7 ''a'']) ! p)
                              \<lparr>entry_state := RWLOCK_DELETED\<rparr>],
                 current_count := current_count (run_ops (init_shared_data 0) [Add 7 ''a'']) - 1,
                 deleted_count := deleted_count (run_ops (init_shared_data 0) [Add 7 ''a'']) + 1\<rparr>
       in removeRsc (run_ops (init_shared_data 0) [Add 7 ''a'']) 7 = (OK, s') \<and>
          removeRsc s' 7 = (NOT_FOUND, s') \<and> \<not> isContain s' 7 \<and> getRsc s' 7 = []))"
  using remove_twice [OF refl one_add(4)] one_add(4) by blast

section \<open>Round trip of add and get\<close>

lemma untouched_preserved:
  assumes inv: "table_inv s" and present: "logical_map s k = Some x" and nt: "\<not> touches k t"
  shows "logical_map (snd (apply_op s t)) k = Some x"
proof (cases t)
  case (Add k' v)
  show ?thesis
  proof (cases rule: addRsc_cases[OF inv, of k' v, case_names ok fail])
    case (ok s')
    then have "k' \<noteq> k" using present by auto
    then show ?thesis using ok present by (simp add: Add)
  next
    case (fail rc s')
    then show ?thesis using present by (simp add: Add)
  qed
next
  case (Update k' v)
  then have ne: "k' \<noteq> k" using nt by simp
  show ?thesis
    by (cases rule: updateRsc_cases[OF inv, of k' v]) (use ne present in \<open>simp_all add: Update\<close>)
next
  case (Upsert k' v)
  then have ne: "k' \<noteq> k" using nt by simp
  show ?thesis
    by (cases rule: upsertRsc_cases[OF inv, of k' v]) (use ne present in \<open>simp_all add: Upsert\<close>)
next
  case (Remove k')
  then have ne: "k' \<noteq> k" using nt by simp
  show ?thesis
    by (cases rule: removeRsc_cases[OF inv, of k']) (use ne present in \<open>simp_all add: Remove\<close>)
next
  case Clear
  then show ?thesis using nt by simp
next
  case (BatchUpdate m)
  then have "k \<notin> fst ` set m" using nt by simp
  from batchUpdateRsc_spec(2)[OF inv this] show ?thesis using present by (simp add: BatchUpdate)
qed

lemma run_untouched:
  assumes "table_inv s" "logical_map s k = Some x" "\<forall>t\<in>set ops. \<not> touches k t"
  shows "logical_map (run_ops s ops) k = Some x \<and> table_inv (run_ops s ops)"
  using assms
proof (induction ops arbitrary: s)
  case Nil then show ?case by simp
next
  case (Cons t ops)
  have "logical_map (snd (apply_op s t)) k = Some x"
    by (rule untouched_preserved) (use Cons.prems in simp_all)
  moreover have "table_inv (snd (apply_op s t))" by (rule apply_op_inv[OF Cons.prems(1)])
  ultimately show ?case using Cons.IH[of "snd (apply_op s t)"] Cons.prems(3) by simp
qed

text \<open>C6: in a reachable state, after \<open>addRsc s k v\<close> has returned \<open>OK\<close>, and after any further
  sequence of operations none of which is an update, upsert or remove of \<open>k\<close>, a batch update
  listing \<open>k\<close>, or clear (additions, also those that trigger a rehash, and operations on other
  keys are allowed), \<open>getRsc\<close> of \<open>k\<close> returns the bytes of \<open>v\<close> up to its first NUL, which is \<open>v\<close>
  itself when \<open>v\<close> holds no NUL byte.\<close>

theorem add_get_roundtrip:
  assumes "s = run_ops (init_shared_data seed) ops0"
    and "addRsc s k v = (OK, s')"
    and "\<forall>t\<in>set ops. \<not> touches k t"
  shows "getRsc (run_ops s' ops) k = c_str v \<and>
         (NUL \<notin> set v \<longrightarrow> getRsc (run_ops s' ops) k = v) \<and>
         isContain (run_ops s' ops) k"
proof -
  have inv: "table_inv s" unfolding assms(1) by (rule reachable_inv)
  have s': "table_inv s'" "logical_map s' k = Some (c_str v)"
    using assms(2) by (cases rule: addRsc_cases[OF inv, of k v]; simp)+
  from run_untouched[OF s' assms(3)]
  have r: "logical_map (run_ops s' ops) k = Some (c_str v)" "table_inv (run_ops s' ops)"
    by simp_all
  have "getRsc (run_ops s' ops) k = c_str v" by (simp add: getRsc_logical[OF r(2)] r(1))
  moreover have "isContain (run_ops s' ops) k" by (simp add: isContain_logical[OF r(2)] r(1))
  ultimately show ?thesis by (simp add: c_str_id)
qed

theorem add_get_roundtrip_witness:
  "addRsc (run_ops (init_shared_data 0) []) 7 ''a''
     = (OK, snd (addRsc (run_ops (init_shared_data 0) []) 7 ''a'')) \<and>
   \<not> touches 7 (Add 8 ''b'') \<and> \<not> touches 7 (Remove 8) \<and>
   \<not> touches 7 (Upsert 9 ''c'') \<and> \<not> touches 7 (Add 7 ''d'') \<and>
   NUL \<notin> set ''a'' \<and>
   getRsc (run_ops (snd (addRsc (run_ops (init_shared_data 0) []) 7 ''a''))
             [Add 8 ''b'', Remove 8, Upsert 9 ''c'', Add 7 ''d'']) 7 = ''a''"
proof -
  have h1: "addRsc (run_ops (init_shared_data 0) []) 7 ''a''
              = (OK, snd (addRsc (run_ops (init_shared_data 0) []) 7 ''a''))"
    using one_add(1) by (simp add: prod_eq_iff)
  have h2: "\<forall>t\<in>set [Add 8 ''b'', Remove 8, Upsert 9 ''c'', Add 7 ''d'']. \<not> touches 7 t"
    by simp
  have h3: "NUL \<notin> set ''a''" by (simp add: NUL_def)
  have h2': "\<not> touches 7 (Add 8 ''b'') \<and> \<not> touches 7 (Remove 8) \<and>
             \<not> touches 7 (Upsert 9 ''c'') \<and> \<not> touches 7 (Add 7 ''d'')"
    by simp
  show ?thesis
    using add_get_roundtrip [OF refl h1 h2] h1 h2' h3 by blast
qed

section \<open>Values with an interior NUL\<close>

lemma upsertRsc_succeeds:
  assumes inv: "table_inv s" and short: "length v < MAX_VALUE_LEN"
    and ok: "logical_map s k \<noteq> None \<or> current_count s < 2048"
  shows "fst (upsertRsc s k v) = OK"
proof (cases "findEntry s k (hash (hash_seed s) k)")
  case (Some p)
  then show ?thesis using short by (simp add: upsertRsc_def)
next
  case None
  then have absent: "\<forall>i<2048. \<not> key_at (hash_table s) k i"
    using findEntry_None_iff[OF inv, of k] by simp
  then have "logical_map s k = None" using logical_map_None_iff[OF inv_length[OF inv], of k] by simp
  with ok have room: "current_count s < 2048" by simp
  from rehashIfNeeded_spec[OF inv] obtain s1 where s1: "rehashIfNeeded s = (OK, s1)"
    "table_inv s1" "logical_map s1 = logical_map s" "hash_seed s1 = hash_seed s"
    "current_count s1 = current_count s" by blast
  have abs: "\<forall>i<2048. \<not> key_at (hash_table s1) k i"
    using \<open>logical_map s k = None\<close> s1(3) logical_map_None_iff[OF inv_length[OF s1(2)], of k] by simp
  have "count_state RWLOCK_OCCUPIED (hash_table s1) < int (length (hash_table s1))"
    using room s1(5) by (simp add: inv_current[OF s1(2), symmetric] inv_length[OF s1(2)])
  from count_state_less_ex[OF this] obtain i where i: "i < 2048"
    "entry_state (hash_table s1 ! i) \<noteq> RWLOCK_OCCUPIED" by (auto simp: inv_length[OF s1(2)])
  from findEmptySlot_exists[OF abs i] obtain p where
    "findEmptySlot s1 k (hash (hash_seed s) k) = Some p" using s1(4) by auto
  then show ?thesis using short None s1(1) by (simp add: upsertRsc_def Let_def)
qed

lemma upsertRsc_OK_state:
  assumes inv: "table_inv s" and ok: "fst (upsertRsc s k v) = OK"
  shows "table_inv (snd (upsertRsc s k v))"
    "logical_map (snd (upsertRsc s k v)) = (logical_map s)(k \<mapsto> c_str v)"
  using ok by (cases rule: upsertRsc_cases[OF inv, of k v]; simp)+

lemma updateRsc_present:
  assumes inv: "table_inv s" and short: "length v < MAX_VALUE_LEN"
    and present: "logical_map s k \<noteq> None"
  shows "fst (updateRsc s k v) = OK" "table_inv (snd (updateRsc s k v))"
    "logical_map (snd (updateRsc s k v)) = (logical_map s)(k \<mapsto> c_str v)"
  using short present by (cases rule: updateRsc_cases[OF inv, of k v]; simp)+

lemma get_of_map:
  "table_inv s \<Longrightarrow> logical_map s k = Some x \<Longrightarrow> getRsc s k = x"
  by (simp add: getRsc_logical)

lemma write_value_c_str: "write_value buf (c_str v) = write_value buf v"
  by (simp add: write_value_def strncpy_def c_str_idem)

lemma truncated_value_same:
  assumes "length v < MAX_VALUE_LEN"
  shows "addRsc t k v = addRsc t k (c_str v)"
    and "updateRsc t k v = updateRsc t k (c_str v)"
    and "upsertRsc t k v = upsertRsc t k (c_str v)"
proof -
  have short: "\<not> length v \<ge> MAX_VALUE_LEN" "\<not> length (c_str v) \<ge> MAX_VALUE_LEN"
    using assms c_str_length_le[of v] by simp_all
  show "addRsc t k v = addRsc t k (c_str v)"
    unfolding addRsc_def store_entry_def by (simp only: short if_False write_value_c_str)
  show "updateRsc t k v = updateRsc t k (c_str v)"
    unfolding updateRsc_def overwrite_value_def by (simp only: short if_False write_value_c_str)
  show "upsertRsc t k v = upsertRsc t k (c_str v)"
    unfolding upsertRsc_def store_entry_def overwrite_value_def
    by (simp only: short if_False write_value_c_str)
qed

text \<open>C10: let \<open>v\<close> and \<open>w\<close> be values shorter than \<open>MAX_VALUE_LEN\<close> that contain a NUL byte, and
  \<open>k\<close> a key that is absent from a reachable table with a free slot. Then \<open>addRsc s k v\<close> and
  \<open>upsertRsc s k v\<close> return \<open>OK\<close>, and so do \<open>updateRsc\<close> and \<open>upsertRsc\<close> of \<open>w\<close> on the table
  that now holds \<open>k\<close>; each time \<open>getRsc\<close> returns the bytes before the first NUL of the value
  written, a proper prefix of it. On any table \<open>t\<close> whatsoever, each of the three operations
  with \<open>v\<close> returns the code and the table that it returns with the prefix of \<open>v\<close> before the
  first NUL. In every reachable state (any seed, any sequence of operations) each value
  buffer has \<open>MAX_VALUE_LEN\<close> bytes and holds a NUL.\<close>

theorem interior_nul_truncates:
  assumes "s = run_ops (init_shared_data seed) ops"
    and "length v < MAX_VALUE_LEN" and "NUL \<in> set v"
    and "length w < MAX_VALUE_LEN" and "NUL \<in> set w"
    and "\<not> isContain s k" and "current_count s < 2048"
  shows "fst (addRsc s k v) = OK \<and> getRsc (snd (addRsc s k v)) k = c_str v \<and>
         fst (upsertRsc s k v) = OK \<and> getRsc (snd (upsertRsc s k v)) k = c_str v \<and>
         fst (updateRsc (snd (addRsc s k v)) k w) = OK \<and>
         getRsc (snd (updateRsc (snd (addRsc s k v)) k w)) k = c_str w \<and>
         fst (upsertRsc (snd (addRsc s k v)) k w) = OK \<and>
         getRsc (snd (upsertRsc (snd (addRsc s k v)) k w)) k = c_str w \<and>
         strict_prefix (c_str v) v \<and> strict_prefix (c_str w) w \<and>
         c_str v = takeWhile (\<lambda>c. c \<noteq> NUL) v \<and>
         addRsc t k v = addRsc t k (c_str v) \<and>
         updateRsc t k v = updateRsc t k (c_str v) \<and>
         upsertRsc t k v = upsertRsc t k (c_str v) \<and>
         (\<forall>i<RWLOCK_HASH_TABLE_SIZE.
            length (entry_value (hash_table (run_ops (init_shared_data seed') ops') ! i))
              = MAX_VALUE_LEN \<and>
            NUL \<in> set (entry_value (hash_table (run_ops (init_shared_data seed') ops') ! i)))"
proof -
  have inv: "table_inv s" unfolding assms(1) by (rule reachable_inv)
  have absent: "logical_map s k = None" using assms(6) by (simp add: isContain_logical[OF inv])
  note a = addRsc_new_state[OF inv assms(2) absent assms(7)]
  let ?s1 = "snd (addRsc s k v)"
  have m1: "logical_map ?s1 k = Some (c_str v)" by (simp add: a(3))
  have g1: "getRsc ?s1 k = c_str v" by (rule get_of_map[OF a(2) m1])
  have u_ok: "fst (upsertRsc s k v) = OK"
    by (rule upsertRsc_succeeds[OF inv assms(2)]) (simp add: assms(7))
  note u = upsertRsc_OK_state[OF inv u_ok]
  have g2: "getRsc (snd (upsertRsc s k v)) k = c_str v"
    by (rule get_of_map[OF u(1)]) (simp add: u(2))
  have p1: "logical_map ?s1 k \<noteq> None" by (simp add: m1)
  note d = updateRsc_present[OF a(2) assms(4) p1]
  have g3: "getRsc (snd (updateRsc ?s1 k w)) k = c_str w"
    by (rule get_of_map[OF d(2)]) (simp add: d(3))
  have u2_ok: "fst (upsertRsc ?s1 k w) = OK"
    by (rule upsertRsc_succeeds[OF a(2) assms(4)]) (simp add: p1)
  note u2 = upsertRsc_OK_state[OF a(2) u2_ok]
  have g4: "getRsc (snd (upsertRsc ?s1 k w)) k = c_str w"
    by (rule get_of_map[OF u2(1)]) (simp add: u2(2))
  have buf: "\<forall>i<RWLOCK_HASH_TABLE_SIZE.
            length (entry_value (hash_table (run_ops (init_shared_data seed') ops') ! i))
              = MAX_VALUE_LEN \<and>
            NUL \<in> set (entry_value (hash_table (run_ops (init_shared_data seed') ops') ! i))"
    using inv_value[OF reachable_inv[of seed' ops']] by (simp add: RWLOCK_HASH_TABLE_SIZE_def)
  have def: "c_str v = takeWhile (\<lambda>c. c \<noteq> NUL) v" by (rule c_str_def)
  show ?thesis
    using a(1) g1 u_ok g2 d(1) g3 u2_ok g4 buf def
      truncated_value_same[OF assms(2), of t k]
      c_str_strict_prefix[OF assms(3)] c_str_strict_prefix[OF assms(5)]
    by blast
qed

lemma c_str_a_nul_b: "c_str [CHR ''a'', NUL, CHR ''b''] = ''a''"
  by (simp add: c_str_def NUL_def)

theorem interior_nul_truncates_witness:
  "length [CHR ''a'', NUL, CHR ''b''] < MAX_VALUE_LEN \<and> NUL \<in> set [CHR ''a'', NUL, CHR ''b''] \<and>
   length [NUL, CHR ''c''] < MAX_VALUE_LEN \<and> NUL \<in> set [NUL, CHR ''c''] \<and>
   \<not> isContain (run_ops (init_shared_data 0) []) 7 \<and>
   current_count (run_ops (init_shared_data 0) []) < 2048 \<and>
   fst (addRsc (run_ops (init_shared_data 0) []) 7 [CHR ''a'', NUL, CHR ''b'']) = OK \<and>
   getRsc (snd (addRsc (run_ops (init_shared_data 0) []) 7 [CHR ''a'', NUL, CHR ''b''])) 7 = ''a'' \<and>
   fst (updateRsc (snd (addRsc (run_ops (init_shared_data 0) []) 7 [CHR ''a'', NUL, CHR ''b'']))
          7 [NUL, CHR ''c'']) = OK \<and>
   getRsc (snd (updateRsc (snd (addRsc (run_ops (init_shared_data 0) []) 7
                                  [CHR ''a'', NUL, CHR ''b''])) 7 [NUL, CHR ''c''])) 7 = []"
proof -
  have h1: "length [CHR ''a'', NUL, CHR ''b''] < MAX_VALUE_LEN" by (simp add: MAX_VALUE_LEN_def)
  have h2: "NUL \<in> set [CHR ''a'', NUL, CHR ''b'']" by simp
  have h3: "length [NUL, CHR ''c''] < MAX_VALUE_LEN" by (simp add: MAX_VALUE_LEN_def)
  have h4: "NUL \<in> set [NUL, CHR ''c'']" by simp
  have h5: "\<not> isContain (run_ops (init_shared_data 0) []) 7"
    by (simp add: isContain_logical[OF init_inv] init_logical_map)
  have h6: "current_count (run_ops (init_shared_data 0) []) < 2048" by (simp add: init_counts)
  have c2: "c_str [NUL, CHR ''c''] = []" by (simp add: c_str_def)
  let ?s = "run_ops (init_shared_data 0) []"
  let ?v = "[CHR ''a'', NUL, CHR ''b'']" and ?w = "[NUL, CHR ''c'']"
  note t = interior_nul_truncates [OF refl h1 h2 h3 h4 h5 h6]
  from t have r1: "fst (addRsc ?s 7 ?v) = OK" by blast
  from t have "getRsc (snd (addRsc ?s 7 ?v)) 7 = c_str ?v" by blast
  then have r2: "getRsc (snd (addRsc ?s 7 ?v)) 7 = ''a''" by (simp only: c_str_a_nul_b)
  from t have r3: "fst (updateRsc (snd (addRsc ?s 7 ?v)) 7 ?w) = OK" by blast
  from t have "getRsc (snd (updateRsc (snd (addRsc ?s 7 ?v)) 7 ?w)) 7 = c_str ?w" by blast
  then have r4: "getRsc (snd (updateRsc (snd (addRsc ?s 7 ?v)) 7 ?w)) 7 = []" by (simp only: c2)
  show ?thesis
    using h1 h2 h3 h4 h5 h6 r1 r2 r3 r4 by blast
qed

section \<open>Adding a key that is present\<close>

lemma run_ops_append: "run_ops s (xs @ ys) = run_ops (run_ops s xs) ys"
  by (induction xs arbitrary: s) simp_all

lemma removeRsc_present_state:
  assumes inv: "table_inv s" and present: "logical_map s k \<noteq> None"
  shows "fst (removeRsc s k) = OK" "table_inv (snd (removeRsc s k))"
    "logical_map (snd (removeRsc s k)) = (logical_map s)(k := None)"
    "current_count (snd (removeRsc s k)) = current_count s - 1"
    "deleted_count (snd (removeRsc s k)) = deleted_count s + 1"
  using present by (cases rule: removeRsc_cases[OF inv, of k]; simp)+

lemma state_A:
  "table_inv (run_ops (init_shared_data 0) (add_keys 0 1536))"
  "current_count (run_ops (init_shared_data 0) (add_keys 0 1536)) = 1536"
  "logical_map (run_ops (init_shared_data 0) (add_keys 0 1536)) 0 = Some []"
proof -
  have n: "(1536 :: nat) \<le> 2048" by simp
  show "table_inv (run_ops (init_shared_data 0) (add_keys 0 1536))" by (rule fill_spec(2)[OF n])
  show "current_count (run_ops (init_shared_data 0) (add_keys 0 1536)) = 1536"
    using fill_spec(3)[OF n, of 0] by simp
  have "\<exists>i<1536. (0 :: 32 word) = word_of_nat i" by (intro exI[of _ 0]) simp
  then show "logical_map (run_ops (init_shared_data 0) (add_keys 0 1536)) 0 = Some []"
    by (simp only: fill_spec(4)[OF n] if_True)
qed

lemma state_B:
  "table_inv (run_ops (init_shared_data 0) (add_keys 0 1537 @ [Remove 0, Remove 1]))"
  "current_count (run_ops (init_shared_data 0) (add_keys 0 1537 @ [Remove 0, Remove 1])) = 1535"
  "deleted_count (run_ops (init_shared_data 0) (add_keys 0 1537 @ [Remove 0, Remove 1])) \<ge> 2"
  "logical_map (run_ops (init_shared_data 0) (add_keys 0 1537 @ [Remove 0, Remove 1])) 5 = Some []"
proof -
  let ?S = "run_ops (init_shared_data 0) (add_keys 0 1537)"
  have n: "(1537 :: nat) \<le> 2048" by simp
  have inv: "table_inv ?S" by (rule fill_spec(2)[OF n])
  have cnt: "current_count ?S = 1537" using fill_spec(3)[OF n, of 0] by simp
  have lm: "logical_map ?S k = (if \<exists>i<1537. k = word_of_nat i then Some [] else None)" for k
    by (rule fill_spec(4)[OF n])
  have "\<exists>i<1537. (0 :: 32 word) = word_of_nat i" by (intro exI[of _ 0]) simp
  then have p0: "logical_map ?S 0 \<noteq> None" by (simp only: lm if_True) simp
  have "\<exists>i<1537. (1 :: 32 word) = word_of_nat i" by (intro exI[of _ 1]) simp
  then have p1: "logical_map ?S 1 = Some []" by (simp only: lm if_True)
  have "\<exists>i<1537. (5 :: 32 word) = word_of_nat i" by (intro exI[of _ 5]) simp
  then have p5: "logical_map ?S 5 = Some []" by (simp only: lm if_True)
  let ?S1 = "snd (removeRsc ?S 0)"
  note r0 = removeRsc_present_state[OF inv p0]
  have p1': "logical_map ?S1 1 \<noteq> None" by (simp add: r0(3) p1)
  let ?S2 = "snd (removeRsc ?S1 1)"
  note r1 = removeRsc_present_state[OF r0(2) p1']
  have eq: "run_ops (init_shared_data 0) (add_keys 0 1537 @ [Remove 0, Remove 1]) = ?S2"
    by (simp only: run_ops_append run_ops.simps apply_op.simps)
  show "table_inv (run_ops (init_shared_data 0) (add_keys 0 1537 @ [Remove 0, Remove 1]))"
    unfolding eq by (rule r1(2))
  show "current_count (run_ops (init_shared_data 0) (add_keys 0 1537 @ [Remove 0, Remove 1])) = 1535"
    unfolding eq using r1(4) r0(4) cnt by simp
  show "deleted_count (run_ops (init_shared_data 0) (add_keys 0 1537 @ [Remove 0, Remove 1])) \<ge> 2"
    unfolding eq using r1(5) r0(5) inv_count_le(2)[OF inv] by simp
  show "logical_map (run_ops (init_shared_data 0) (add_keys 0 1537 @ [Remove 0, Remove 1])) 5 = Some []"
    unfolding eq by (simp add: r1(3) r0(3) p5)
qed

text \<open>C3, as stated, fails twice. After the 1536 insertions of the keys 0, ..., 1535 into a
  fresh table, key 0 is present and \<open>addRsc\<close> of key 0 returns \<open>NO_SPACE_ERR\<close>, not
  \<open>DUPLICATE_KEY\<close>. After 1537 insertions and the removal of keys 0 and 1, key 5 is present,
  \<open>addRsc\<close> of key 5 returns \<open>DUPLICATE_KEY\<close>, and the table is not the one before the call:
  \<open>rehashIfNeeded\<close> ran first.\<close>

theorem addRsc_on_present_key_counterexample:
  "isContain (run_ops (init_shared_data 0) (add_keys 0 1536)) 0 \<and>
   fst (addRsc (run_ops (init_shared_data 0) (add_keys 0 1536)) 0 []) = NO_SPACE_ERR \<and>
   NO_SPACE_ERR \<noteq> DUPLICATE_KEY \<and>
   isContain (run_ops (init_shared_data 0) (add_keys 0 1537 @ [Remove 0, Remove 1])) 5 \<and>
   fst (addRsc (run_ops (init_shared_data 0) (add_keys 0 1537 @ [Remove 0, Remove 1])) 5 [])
     = DUPLICATE_KEY \<and>
   snd (addRsc (run_ops (init_shared_data 0) (add_keys 0 1537 @ [Remove 0, Remove 1])) 5 [])
     \<noteq> run_ops (init_shared_data 0) (add_keys 0 1537 @ [Remove 0, Remove 1])"
proof -
  let ?A = "run_ops (init_shared_data 0) (add_keys 0 1536)"
  let ?B = "run_ops (init_shared_data 0) (add_keys 0 1537 @ [Remove 0, Remove 1])"
  have short: "length ([] :: string) < MAX_VALUE_LEN" by (simp add: MAX_VALUE_LEN_def)
  have a1: "isContain ?A 0" by (simp only: isContain_logical[OF state_A(1)] state_A(3)) simp
  have pa: "logical_map ?A 0 \<noteq> None" by (simp only: state_A(3)) simp
  have a2: "fst (addRsc ?A 0 []) = NO_SPACE_ERR"
    by (simp only: addRsc_dup[OF state_A(1) short pa] state_A(2) RWLOCK_MAX_ENTRIES_def) simp
  have b1: "isContain ?B 5" by (simp only: isContain_logical[OF state_B(1)] state_B(4)) simp
  have pb: "logical_map ?B 5 \<noteq> None" by (simp only: state_B(4)) simp
  have b2: "fst (addRsc ?B 5 []) = DUPLICATE_KEY"
    by (simp only: addRsc_dup[OF state_B(1) short pb] state_B(2) RWLOCK_MAX_ENTRIES_def) simp
  have need: "needRehash ?B"
    using state_B(2,3) by (simp add: needRehash_def RWLOCK_MAX_ENTRIES_def)
  from rehashIfNeeded_spec[OF state_B(1)] need
  have "deleted_count (snd (rehashIfNeeded ?B)) = 0" by auto
  then have "deleted_count (snd (addRsc ?B 5 [])) = 0"
    by (simp only: addRsc_dup[OF state_B(1) short pb] snd_conv)
  then have b3: "snd (addRsc ?B 5 []) \<noteq> ?B" using state_B(3) by auto
  have "NO_SPACE_ERR \<noteq> DUPLICATE_KEY" by (simp add: retcode_defs)
  then show ?thesis using a1 a2 b1 b2 b3 by (simp only: simp_thms)
qed

text \<open>C3, amended: in every reachable state in which key \<open>k\<close> is present and \<open>current_count\<close>
  is below \<open>RWLOCK_MAX_ENTRIES\<close>, \<open>addRsc\<close> of \<open>k\<close> with a value shorter than \<open>MAX_VALUE_LEN\<close>
  returns \<open>DUPLICATE_KEY\<close>; the table it leaves is the one \<open>rehashIfNeeded\<close> produces, with the
  same key-to-value map, live count and seed. When no rehash is due the table is unchanged;
  when one is due, the tombstones are gone.\<close>

theorem addRsc_on_present_key:
  assumes "s = run_ops (init_shared_data seed) ops" and "isContain s k"
    and "length v < MAX_VALUE_LEN" and "current_count s < RWLOCK_MAX_ENTRIES"
  shows "fst (addRsc s k v) = DUPLICATE_KEY \<and>
         snd (addRsc s k v) = snd (rehashIfNeeded s) \<and>
         logical_map (snd (addRsc s k v)) = logical_map s \<and>
         current_count (snd (addRsc s k v)) = current_count s \<and>
         hash_seed (snd (addRsc s k v)) = hash_seed s \<and>
         (if needRehash s then deleted_count (snd (addRsc s k v)) = 0
          else snd (addRsc s k v) = s)"
proof -
  have inv: "table_inv s" unfolding assms(1) by (rule reachable_inv)
  have present: "logical_map s k \<noteq> None" using assms(2) by (simp add: isContain_logical[OF inv])
  note d = addRsc_dup[OF inv assms(3) present]
  from rehashIfNeeded_spec[OF inv] obtain s1 where s1: "rehashIfNeeded s = (OK, s1)"
    "logical_map s1 = logical_map s" "hash_seed s1 = hash_seed s"
    "current_count s1 = current_count s" "if needRehash s then deleted_count s1 = 0 else s1 = s"
    by blast
  show ?thesis using assms(4) s1 by (simp add: d)
qed

lemma addRsc_deleted_le:
  assumes inv: "table_inv s"
  shows "deleted_count (snd (addRsc s k v)) \<le> deleted_count s"
proof (cases "length v \<ge> MAX_VALUE_LEN")
  case True
  then show ?thesis by (simp add: addRsc_def)
next
  case short: False
  from rehashIfNeeded_spec[OF inv] obtain s1 where s1: "rehashIfNeeded s = (OK, s1)"
    "table_inv s1" "if needRehash s then deleted_count s1 = 0 else s1 = s" by blast
  have le: "deleted_count s1 \<le> deleted_count s"
    using s1(3) inv_count_le(2)[OF inv] by (cases "needRehash s") simp_all
  show ?thesis
  proof (cases "findEmptySlot s1 k (hash (hash_seed s1) k)")
    case None
    then show ?thesis using short s1(1) le by (simp add: addRsc_def)
  next
    case (Some p)
    from insert_spec(5)[OF s1(2) Some, of v] show ?thesis
      using short s1(1) Some le by (simp add: addRsc_def Let_def split: if_splits)
  qed
qed

lemma one_add_no_rehash: "\<not> needRehash (run_ops (init_shared_data 0) [Add 7 ''a''])"
proof -
  have "deleted_count (snd (addRsc (init_shared_data 0) 7 ''a'')) \<le> 0"
    using addRsc_deleted_le[OF init_inv, of 0 7 "''a''"] by (simp add: init_counts)
  then have "deleted_count (run_ops (init_shared_data 0) [Add 7 ''a'']) \<le> 0" by simp
  then show ?thesis
    using one_add(5) by (simp add: needRehash_def RWLOCK_MAX_ENTRIES_def del: run_ops.simps)
qed

theorem addRsc_on_present_key_witness:
  "isContain (run_ops (init_shared_data 0) [Add 7 ''a'']) 7 \<and>
   length ''b'' < MAX_VALUE_LEN \<and>
   current_count (run_ops (init_shared_data 0) [Add 7 ''a'']) < RWLOCK_MAX_ENTRIES \<and>
   \<not> needRehash (run_ops (init_shared_data 0) [Add 7 ''a'']) \<and>
   fst (addRsc (run_ops (init_shared_data 0) [Add 7 ''a'']) 7 ''b'') = DUPLICATE_KEY \<and>
   snd (addRsc (run_ops (init_shared_data 0) [Add 7 ''a'']) 7 ''b'')
     = run_ops (init_shared_data 0) [Add 7 ''a'']"
proof -
  let ?s = "run_ops (init_shared_data 0) [Add 7 ''a'']"
  have h2: "length ''b'' < MAX_VALUE_LEN" by (simp add: MAX_VALUE_LEN_def)
  have h3: "current_count ?s < RWLOCK_MAX_ENTRIES"
    by (simp only: one_add(5) RWLOCK_MAX_ENTRIES_def)
  note t = addRsc_on_present_key [OF refl one_add(4) h2 h3]
  from t have c1: "fst (addRsc ?s 7 ''b'') = DUPLICATE_KEY" by (rule conjunct1)
  from t have "if needRehash ?s then deleted_count (snd (addRsc ?s 7 ''b'')) = 0
               else snd (addRsc ?s 7 ''b'') = ?s" by blast
  then have c2: "snd (addRsc ?s 7 ''b'') = ?s"
    using one_add_no_rehash by (simp only: if_False)
  show ?thesis
    using one_add(4) h2 h3 one_add_no_rehash c1 c2 by blast
qed

section \<open>Rehash of a table with tombstones\<close>

text \<open>C5: when \<open>rehashIfNeeded\<close> rebuilds a table that satisfies the invariants, it returns
  \<open>OK\<close>; the set of occupied (key, value) pairs and the key-to-value map are those of the
  table before; afterwards no slot is a tombstone and \<open>deleted_count\<close> is 0, \<open>current_count\<close>
  is the number of occupied slots (unchanged by the rebuild), the seed is unchanged and the
  invariants hold again.\<close>

theorem rehash_preserves_content:
  assumes "table_inv s" and "needRehash s"
  shows "fst (rehashIfNeeded s) = OK \<and>
         occupied_pairs (snd (rehashIfNeeded s)) = occupied_pairs s \<and>
         logical_map (snd (rehashIfNeeded s)) = logical_map s \<and>
         deleted_count (snd (rehashIfNeeded s)) = 0 \<and>
         count_state RWLOCK_DELETED (hash_table (snd (rehashIfNeeded s))) = 0 \<and>
         current_count (snd (rehashIfNeeded s))
           = count_state RWLOCK_OCCUPIED (hash_table (snd (rehashIfNeeded s))) \<and>
         current_count (snd (rehashIfNeeded s)) = current_count s \<and>
         hash_seed (snd (rehashIfNeeded s)) = hash_seed s \<and>
         table_inv (snd (rehashIfNeeded s))"
proof -
  from rehashIfNeeded_spec[OF assms(1)] assms(2) obtain s' where s':
    "rehashIfNeeded s = (OK, s')" "table_inv s'" "logical_map s' = logical_map s"
    "hash_seed s' = hash_seed s" "current_count s' = current_count s" "deleted_count s' = 0"
    by auto
  have "occupied_pairs s' = occupied_pairs s"
    by (simp add: occupied_pairs_logical[OF assms(1)] occupied_pairs_logical[OF s'(2)] s'(3))
  then show ?thesis
    using s' inv_current[OF s'(2)] inv_deleted[OF s'(2)] by simp
qed

lemma state_B_need: "needRehash (run_ops (init_shared_data 0) (add_keys 0 1537 @ [Remove 0, Remove 1]))"
  using state_B(2,3) by (simp add: needRehash_def RWLOCK_MAX_ENTRIES_def)

theorem rehash_preserves_content_witness:
  "table_inv (run_ops (init_shared_data 0) (add_keys 0 1537 @ [Remove 0, Remove 1])) \<and>
   needRehash (run_ops (init_shared_data 0) (add_keys 0 1537 @ [Remove 0, Remove 1])) \<and>
   current_count (run_ops (init_shared_data 0) (add_keys 0 1537 @ [Remove 0, Remove 1]))
     \<le> RWLOCK_MAX_ENTRIES \<and>
   fst (rehashIfNeeded (run_ops (init_shared_data 0) (add_keys 0 1537 @ [Remove 0, Remove 1])))
     = OK \<and>
   occupied_pairs
     (snd (rehashIfNeeded (run_ops (init_shared_data 0) (add_keys 0 1537 @ [Remove 0, Remove 1]))))
     = occupied_pairs (run_ops (init_shared_data 0) (add_keys 0 1537 @ [Remove 0, Remove 1])) \<and>
   deleted_count
     (snd (rehashIfNeeded (run_ops (init_shared_data 0) (add_keys 0 1537 @ [Remove 0, Remove 1]))))
     = 0 \<and>
   hash_seed
     (snd (rehashIfNeeded (run_ops (init_shared_data 0) (add_keys 0 1537 @ [Remove 0, Remove 1]))))
     = hash_seed (run_ops (init_shared_data 0) (add_keys 0 1537 @ [Remove 0, Remove 1]))"
proof -
  have le: "current_count (run_ops (init_shared_data 0) (add_keys 0 1537 @ [Remove 0, Remove 1]))
              \<le> RWLOCK_MAX_ENTRIES"
    by (simp only: state_B(2) RWLOCK_MAX_ENTRIES_def)
  show ?thesis
    using rehash_preserves_content [OF state_B(1) state_B_need] state_B(1) state_B_need le
    by blast
qed

end
